theory Spec2Isabelle
  imports Complex_Main "HOL-Library.Code_Target_Numeral"
begin

section \<open>Strings and numbers of the host language\<close>

text \<open>
  A string is a list of code units; the development covers strings whose code units lie
  below 256. The numbers of page positions and page indices are integers held in double
  precision: every integer of magnitude up to \<open>2 ^ 53\<close> is a number, and a larger one is
  rounded to the nearest integer with 53 significant bits, to the even one of two equally
  near. The numbers of the page geometry are reals, not rounded.

  The functions of this section are built-ins of the language, not code of the repository;
  they follow ECMA-262: \<open>String.prototype.trim\<close>, \<open>String.prototype.split\<close> with a
  one-character separator, \<open>parseInt\<close> with no radix argument, \<open>Number.prototype.toString\<close>
  on a non-negative integer and \<open>String.prototype.padStart\<close> with a one-character filler.
\<close>

function bitLength :: "nat \<Rightarrow> nat" where
  "bitLength n = (if n = 0 then 0 else Suc (bitLength (n div 2)))"
  by pat_completeness auto
termination
  by (relation "measure (\<lambda>n. n)") auto

declare bitLength.simps [simp del]

text \<open>
  The number nearest to a non-negative integer. \<open>2 ^ 1024\<close> stands for \<open>Infinity\<close>: it is
  above every other number and is its own successor.
\<close>

definition toDouble :: "nat \<Rightarrow> nat" where
  "toDouble n =
     (if n \<le> 2 ^ 53 then n
      else (let e = bitLength n - 53;
                q = n div 2 ^ e;
                r = n mod 2 ^ e;
                half = 2 ^ (e - 1);
                m = (if r < half \<or> (r = half \<and> even q) then q else q + 1)
            in if 2 ^ 1024 \<le> m * 2 ^ e then 2 ^ 1024 else m * 2 ^ e))"

definition roundInt :: "int \<Rightarrow> int" where
  "roundInt x = (if 0 \<le> x then int (toDouble (nat x)) else - int (toDouble (nat (- x))))"

definition isWhiteSpace :: "char \<Rightarrow> bool" where
  "isWhiteSpace c =
     (c \<in> set [CHR 0x09, CHR 0x0A, CHR 0x0B, CHR 0x0C, CHR 0x0D, CHR 0x20, CHR 0xA0])"

definition trim :: "string \<Rightarrow> string" where
  "trim s = rev (dropWhile isWhiteSpace (rev (dropWhile isWhiteSpace s)))"

fun split_chr :: "char \<Rightarrow> string \<Rightarrow> string list" where
  "split_chr sep [] = [[]]"
| "split_chr sep (c # cs) =
     (if c = sep then [] # split_chr sep cs
      else (case split_chr sep cs of
              [] \<Rightarrow> [[c]]
            | p # ps \<Rightarrow> (c # p) # ps))"

definition digitValue :: "char \<Rightarrow> nat option" where
  "digitValue c =
     (let n = (of_char c :: nat) in
      if 48 \<le> n \<and> n \<le> 57 then Some (n - 48)
      else if 97 \<le> n \<and> n \<le> 122 then Some (n - 87)
      else if 65 \<le> n \<and> n \<le> 90 then Some (n - 55)
      else None)"

definition isRadixDigit :: "nat \<Rightarrow> char \<Rightarrow> bool" where
  "isRadixDigit R c = (case digitValue c of None \<Rightarrow> False | Some v \<Rightarrow> v < R)"

definition digitsValue :: "nat \<Rightarrow> string \<Rightarrow> nat" where
  "digitsValue R Z = foldl (\<lambda>acc c. acc * R + (case digitValue c of None \<Rightarrow> 0 | Some v \<Rightarrow> v)) 0 Z"

text \<open>
  The steps of \<open>parseInt\<close> up to the mathematical integer the digits denote, with its
  sign; \<open>None\<close> stands for \<open>NaN\<close>.
\<close>

definition mathInt :: "string \<Rightarrow> int option" where
  "mathInt inputString =
     (let S = dropWhile isWhiteSpace inputString;
          sign = (if take 1 S = ''-'' then - 1 else (1::int));
          S1 = (if take 1 S = ''+'' \<or> take 1 S = ''-'' then drop 1 S else S);
          hex = (take 2 S1 = ''0x'' \<or> take 2 S1 = ''0X'');
          R = (if hex then 16 else 10);
          S2 = (if hex then drop 2 S1 else S1);
          Z = takeWhile (isRadixDigit R) S2
      in if Z = [] then None else Some (sign * int (digitsValue R Z)))"

text \<open>
  \<open>parseInt\<close> returns the number for that integer. (For more than 20 significant decimal
  digits the standard lets an engine round otherwise; the rounding here is the exact one.)
\<close>

definition parseInt :: "string \<Rightarrow> int option" where
  "parseInt inputString = map_option roundInt (mathInt inputString)"

section \<open>Splitting: the page indices of each output file\<close>

text \<open>
  \<open>splitPdf\<close> loads the document, chooses the indices of the pages to copy and writes
  the copies into new documents. The model keeps the choice: the result is the sequence of
  files written, each with the list of page indices handed to \<open>copyPages\<close> for it. The
  document enters through its page count only. A call returns a result, raises an error or
  never returns; \<open>None\<close> stands for a call that never returns.
\<close>

datatype mode = Each | Ranges | Selected | Delete | Extract

datatype split_error = InvalidSplitMode | CopyPagesTypeError

text \<open>
  An archive is the sequence of \<open>folder.file\<close> calls, each with the number that ends the
  file's name and the pages of the file; a single document is its pages. In the archive
  written in the end a later file replaces an earlier one of the same name; the model keeps
  the calls.
\<close>

datatype split_output = Zip "(int \<times> int list) list" | Pdf "int list"

fun groups :: "split_output \<Rightarrow> int list list" where
  "groups (Zip files) = map snd files"
| "groups (Pdf pageIndices) = [pageIndices]"

text \<open>
  \<open>copyPages\<close> of the library reads the page of the source document at each index and
  copies it; at an index with no page the read gives \<open>undefined\<close> and the copy raises a
  \<open>TypeError\<close>.
\<close>

definition copyPages :: "nat \<Rightarrow> int list \<Rightarrow> split_error + int list" where
  "copyPages pageCount indices =
     (if list_all (\<lambda>index. 0 \<le> index \<and> index < int pageCount) indices
      then Inr indices
      else Inl CopyPagesTypeError)"

definition defaultIndices :: "nat \<Rightarrow> int list" where
  "defaultIndices pageCount = map int [0..<pageCount]"

text \<open>An array is truthy even when empty, so only an absent \<open>sourceIndices\<close> is defaulted.\<close>

definition availableIndicesOf :: "nat \<Rightarrow> int list option \<Rightarrow> int list" where
  "availableIndicesOf pageCount sourceIndices =
     (case sourceIndices of None \<Rightarrow> defaultIndices pageCount | Some xs \<Rightarrow> xs)"

function eachLoop ::
  "nat \<Rightarrow> int list \<Rightarrow> nat \<Rightarrow> (int \<times> int list) list \<Rightarrow> split_error + (int \<times> int list) list" where
  "eachLoop pageCount availableIndices i files =
     (if i < length availableIndices
      then (case copyPages pageCount [availableIndices ! i] of
              Inl err \<Rightarrow> Inl err
            | Inr copiedPage \<Rightarrow>
                eachLoop pageCount availableIndices (i + 1) (files @ [(int i + 1, copiedPage)]))
      else Inr files)"
  by pat_completeness auto
termination
  by (relation "measure (\<lambda>(pageCount, availableIndices, i, files). length availableIndices - i)") auto

declare eachLoop.simps [simp del]

text \<open>
  The loop \<open>for (let j = start; j <= end; j++)\<close>. The counter is a number, so \<open>j++\<close>
  rounds: at \<open>2 ^ 53\<close> it gives \<open>2 ^ 53\<close> again, and the loop need not end.
\<close>

partial_function (option) rangeLoop :: "int list \<Rightarrow> int \<Rightarrow> int \<Rightarrow> int list \<Rightarrow> int list option" where
  "rangeLoop availableIndices j endn pageIndices =
     (if j \<le> endn
      then rangeLoop availableIndices (roundInt (j + 1)) endn
             (if j > 0 \<and> j \<le> int (length availableIndices)
              then pageIndices @ [availableIndices ! nat (j - 1)]
              else pageIndices)
      else Some pageIndices)"

declare rangeLoop.simps [code]

text \<open>
  The body of the loop over the parts, up to the test on \<open>pageIndices.length\<close>. A \<open>NaN\<close>
  bound makes the comparison \<open>j <= end\<close> false at once, and a \<open>NaN\<close> page number makes
  \<open>pageNum > 0\<close> false.
\<close>

definition pageIndicesOf :: "int list \<Rightarrow> string \<Rightarrow> int list option" where
  "pageIndicesOf availableIndices part =
     (if CHR ''-'' \<in> set part
      then (case map parseInt (split_chr CHR ''-'' part) of
              start # endn # _ \<Rightarrow>
                (case (start, endn) of
                   (Some s, Some e) \<Rightarrow> rangeLoop availableIndices s e []
                 | _ \<Rightarrow> Some [])
            | _ \<Rightarrow> Some [])
      else (case parseInt part of
              Some pageNum \<Rightarrow>
                (if pageNum > 0 \<and> pageNum \<le> int (length availableIndices)
                 then Some [availableIndices ! nat (pageNum - 1)]
                 else Some [])
            | None \<Rightarrow> Some []))"

function rangesLoop ::
  "nat \<Rightarrow> int list \<Rightarrow> string list \<Rightarrow> nat \<Rightarrow> (int \<times> int list) list \<Rightarrow>
   (split_error + (int \<times> int list) list) option" where
  "rangesLoop pageCount availableIndices parts i files =
     (if i < length parts
      then (case pageIndicesOf availableIndices (parts ! i) of
              None \<Rightarrow> None
            | Some pageIndices \<Rightarrow>
                if length pageIndices > 0
                then (case copyPages pageCount pageIndices of
                        Inl err \<Rightarrow> Some (Inl err)
                      | Inr copiedPages \<Rightarrow>
                          rangesLoop pageCount availableIndices parts (i + 1)
                            (files @ [(int i + 1, copiedPages)]))
                else rangesLoop pageCount availableIndices parts (i + 1) files)
      else Some (Inr files))"
  by pat_completeness auto
termination
  by (relation "measure (\<lambda>(pageCount, availableIndices, parts, i, files). length parts - i)") auto

declare rangesLoop.simps [simp del]

definition partsOf :: "string \<Rightarrow> string list" where
  "partsOf ranges = map trim (split_chr CHR '','' ranges)"

fun selectedLoop ::
  "nat \<Rightarrow> int list \<Rightarrow> int list \<Rightarrow> (int \<times> int list) list \<Rightarrow> split_error + (int \<times> int list) list" where
  "selectedLoop pageCount availableIndices [] files = Inr files"
| "selectedLoop pageCount availableIndices (idx # rest) files =
     (if idx \<ge> 0 \<and> idx < int (length availableIndices)
      then (case copyPages pageCount [availableIndices ! nat idx] of
              Inl err \<Rightarrow> Inl err
            | Inr copiedPage \<Rightarrow>
                selectedLoop pageCount availableIndices rest (files @ [(idx + 1, copiedPage)]))
      else selectedLoop pageCount availableIndices rest files)"

function deleteLoop :: "int list \<Rightarrow> int list \<Rightarrow> nat \<Rightarrow> int list \<Rightarrow> int list" where
  "deleteLoop availableIndices selectedPages i pageIndicesToKeep =
     (if i < length availableIndices
      then deleteLoop availableIndices selectedPages (i + 1)
             (if int i \<notin> set selectedPages
              then pageIndicesToKeep @ [availableIndices ! i]
              else pageIndicesToKeep)
      else pageIndicesToKeep)"
  by pat_completeness auto
termination
  by (relation "measure (\<lambda>(availableIndices, selectedPages, i, keep). length availableIndices - i)") auto

declare deleteLoop.simps [simp del]

definition indicesToExtract :: "int list \<Rightarrow> int list \<Rightarrow> int list" where
  "indicesToExtract availableIndices selectedPages =
     map (\<lambda>idx. availableIndices ! nat idx)
       (filter (\<lambda>idx. idx \<ge> 0 \<and> idx < int (length availableIndices)) selectedPages)"

text \<open>
  The end of the modes \<open>delete\<close> and \<open>extract\<close>: the pages are copied when there is one
  at least, and the new document is saved in either case.
\<close>

definition singleDocument :: "nat \<Rightarrow> int list \<Rightarrow> split_error + split_output" where
  "singleDocument pageCount indices =
     (if length indices > 0
      then (case copyPages pageCount indices of
              Inl err \<Rightarrow> Inl err
            | Inr copiedPages \<Rightarrow> Inr (Pdf copiedPages))
      else Inr (Pdf []))"

definition archive :: "split_error + (int \<times> int list) list \<Rightarrow> split_error + split_output" where
  "archive r = (case r of Inl err \<Rightarrow> Inl err | Inr files \<Rightarrow> Inr (Zip files))"

text \<open>
  The chain of tests on the mode. A string is truthy when present and not empty; an array
  is truthy when present. A call that passes no test reaches the \<open>throw\<close> at the end.
\<close>

definition splitPdf ::
  "nat \<Rightarrow> mode \<Rightarrow> string option \<Rightarrow> int list option \<Rightarrow> int list option \<Rightarrow>
   (split_error + split_output) option" where
  "splitPdf pageCount mode ranges selectedPages sourceIndices =
     (let availableIndices = availableIndicesOf pageCount sourceIndices in
      if mode = Each then Some (archive (eachLoop pageCount availableIndices 0 []))
      else if mode = Ranges \<and> ranges \<noteq> None \<and> ranges \<noteq> Some []
      then map_option archive
             (rangesLoop pageCount availableIndices
                (partsOf (case ranges of Some r \<Rightarrow> r | None \<Rightarrow> [])) 0 [])
      else if mode = Selected \<and> selectedPages \<noteq> None \<and> selectedPages \<noteq> Some []
      then Some (archive (selectedLoop pageCount availableIndices
                            (case selectedPages of Some sel \<Rightarrow> sel | None \<Rightarrow> []) []))
      else if mode = Delete \<and> selectedPages \<noteq> None
      then Some (singleDocument pageCount
                   (deleteLoop availableIndices (case selectedPages of Some sel \<Rightarrow> sel | None \<Rightarrow> []) 0 []))
      else if mode = Extract \<and> selectedPages \<noteq> None \<and> selectedPages \<noteq> Some []
      then Some (singleDocument pageCount
                   (indicesToExtract availableIndices (case selectedPages of Some sel \<Rightarrow> sel | None \<Rightarrow> [])))
      else Some (Inl InvalidSplitMode))"

section \<open>Watermarks: text, placement and drawing options\<close>

text \<open>\<open>toString\<close> of a non-negative integer, and \<open>padStart\<close> with the filler \<open>0\<close>.\<close>

definition digitChar :: "nat \<Rightarrow> char" where
  "digitChar d = ''0123456789'' ! d"

function toString :: "nat \<Rightarrow> string" where
  "toString n = (if n < 10 then [digitChar n] else toString (n div 10) @ [digitChar (n mod 10)])"
  by pat_completeness auto
termination
  by (relation "measure (\<lambda>n. n)") auto

declare toString.simps [simp del]

definition padStart :: "string \<Rightarrow> nat \<Rightarrow> string" where
  "padStart s targetLength = replicate (targetLength - length s) CHR ''0'' @ s"

text \<open>
  \<open>currentText.replace(/{page}/g, v)\<close> and \<open>currentText.replace(/{total}/g, v)\<close>: the
  pattern is a fixed string, matched from left to right, the search resuming after each
  match. The value \<open>v\<close> is a string of digits, so no \<open>$\<close> pattern of the replacement
  string is involved.
\<close>

function replaceAll :: "string \<Rightarrow> string \<Rightarrow> string \<Rightarrow> string" where
  "replaceAll pat rep [] = []"
| "replaceAll pat rep (c # cs) =
     (if pat \<noteq> [] \<and> take (length pat) (c # cs) = pat
      then rep @ replaceAll pat rep (drop (length pat) (c # cs))
      else c # replaceAll pat rep cs)"
  by pat_completeness auto
termination
  by (relation "measure (\<lambda>(pat, rep, s). length s)") auto

text \<open>
  \<open>currentText.replace(/{page:(\d+)}/g, (_, width) => pageNo.padStart(parseInt(width), '0'))\<close>:
  after \<open>{page:\<close> the group takes every digit that follows and the match needs \<open>}\<close>
  right after them; no shorter run of digits can be followed by \<open>}\<close>.
\<close>

definition isDecDigit :: "char \<Rightarrow> bool" where
  "isDecDigit c = isRadixDigit 10 c"

definition widthOf :: "string \<Rightarrow> nat" where
  "widthOf width = (case parseInt width of None \<Rightarrow> 0 | Some w \<Rightarrow> nat w)"

function replacePadded :: "string \<Rightarrow> string \<Rightarrow> string" where
  "replacePadded pageNo [] = []"
| "replacePadded pageNo (c # cs) =
     (let width = takeWhile isDecDigit (drop 6 (c # cs));
          rest = drop (6 + length width) (c # cs)
      in if take 6 (c # cs) = ''{page:'' \<and> width \<noteq> [] \<and> take 1 rest = ''}''
         then padStart pageNo (widthOf width) @ replacePadded pageNo (drop 1 rest)
         else c # replacePadded pageNo cs)"
  by pat_completeness auto
termination
  by (relation "measure (\<lambda>(pageNo, s). length s)") auto

text \<open>The three replacements on the text of the page with index \<open>idx\<close>.\<close>

definition currentText :: "string \<Rightarrow> nat \<Rightarrow> nat \<Rightarrow> string" where
  "currentText text idx pagesLength =
     replacePadded (toString (idx + 1))
       (replaceAll ''{total}'' (toString pagesLength)
          (replaceAll ''{page}'' (toString (idx + 1)) text))"

text \<open>The origin of the text, from the size of the page, the anchor and the extents.\<close>

definition drawOrigin :: "real \<Rightarrow> real \<Rightarrow> real \<Rightarrow> real \<Rightarrow> real \<Rightarrow> real \<Rightarrow> real \<Rightarrow> real \<times> real" where
  "drawOrigin width height xRatio yRatio rotationAngle textWidth textHeight =
     (let centerX = width * xRatio;
          centerY = height * (1 - yRatio);
          rad = (rotationAngle * pi) / 180;
          cosv = cos rad;
          sinv = sin rad;
          vX = textWidth / 2;
          vY = textHeight / 2;
          rotatedVX = vX * cosv - vY * sinv;
          rotatedVY = vX * sinv + vY * cosv;
          drawX = centerX - rotatedVX;
          drawY = centerY - rotatedVY
      in (drawX, drawY))"

text \<open>
  The options of a call. The watermark file enters as the page embedded from it; the colour
  of the text plays no part in what follows and is left out.
\<close>

record 'f WatermarkOptions =
  o_text :: "string option"
  o_size :: "real option"
  o_opacity :: "real option"
  o_file :: "'f option"
  o_x :: "real option"
  o_y :: "real option"
  o_rotation :: "real option"

text \<open>
  \<open>v || d\<close> on an optional number: \<open>d\<close> when \<open>v\<close> is absent or zero. \<open>v ?? d\<close>: \<open>d\<close> only
  when \<open>v\<close> is absent.
\<close>

definition orDefault :: "real option \<Rightarrow> real \<Rightarrow> real" where
  "orDefault v d = (case v of None \<Rightarrow> d | Some n \<Rightarrow> if n = 0 then d else n)"

definition nullish :: "real option \<Rightarrow> real \<Rightarrow> real" where
  "nullish v d = (case v of None \<Rightarrow> d | Some n \<Rightarrow> n)"

record font =
  widthOfTextAtSize :: "string \<Rightarrow> real \<Rightarrow> real"
  heightAtSize :: "real \<Rightarrow> real"

text \<open>
  The fonts the call can embed: Helvetica, and the font fetched for a text with a code unit
  above 127, absent when no source delivers it.
\<close>

record fonts =
  helvetica :: font
  notoSerif :: "font option"

datatype watermark_error = FontLoadError

text \<open>What is drawn on a page: the arguments of \<open>drawPage\<close> or of \<open>drawText\<close>.\<close>

datatype 'f draw =
    DrawPage 'f (dp_x: real) (dp_y: real) (dp_width: real) (dp_height: real)
      (dp_opacity: real) (dp_rotate: real)
  | DrawText string (dt_x: real) (dt_y: real) (dt_size: real) (dt_opacity: real) (dt_rotate: real)

definition hasNonLatin :: "string \<Rightarrow> bool" where
  "hasNonLatin text = list_ex (\<lambda>c. (of_char c :: nat) > 127) text"

definition drawTextOn ::
  "font \<Rightarrow> string \<Rightarrow> real \<Rightarrow> real \<Rightarrow> real \<Rightarrow> real \<Rightarrow> real \<Rightarrow> nat \<Rightarrow> nat \<times> real \<times> real \<Rightarrow> 'f draw" where
  "drawTextOn fnt text textSize opacity xRatio yRatio rotationAngle pagesLength page =
     (case page of (idx, width, height) \<Rightarrow>
        (let cur = currentText text idx pagesLength;
             textWidth = widthOfTextAtSize fnt cur textSize;
             textHeight = heightAtSize fnt textSize;
             origin = drawOrigin width height xRatio yRatio rotationAngle textWidth textHeight
         in DrawText cur (fst origin) (snd origin) textSize opacity rotationAngle))"

text \<open>
  \<open>addWatermark\<close> on a document given by the sizes of its pages. The result lists the
  drawing of each page, in page order; a failure of the library while it measures or draws
  is not part of the model.
\<close>

definition addWatermark ::
  "(real \<times> real) list \<Rightarrow> fonts \<Rightarrow> 'f WatermarkOptions \<Rightarrow> watermark_error + 'f draw list" where
  "addWatermark pages fs options =
     (let xRatio = nullish (o_x options) 0.5;
          yRatio = nullish (o_y options) 0.5;
          textTruthy = (case o_text options of None \<Rightarrow> False | Some t \<Rightarrow> t \<noteq> []);
          rotationAngle = nullish (o_rotation options) (if textTruthy then 45 else 0)
      in case o_file options of
           Some watermarkPage \<Rightarrow>
             Inr (map (\<lambda>(width, height).
                    DrawPage watermarkPage (width * xRatio - width / 2)
                      (height * (1 - yRatio) - height / 2) width height
                      (orDefault (o_opacity options) 0.5) rotationAngle) pages)
         | None \<Rightarrow>
             (case o_text options of
                None \<Rightarrow> Inr []
              | Some text \<Rightarrow>
                  if text = [] then Inr []
                  else (case (if hasNonLatin text then notoSerif fs else Some (helvetica fs)) of
                          None \<Rightarrow> Inl FontLoadError
                        | Some fnt \<Rightarrow>
                            (let textSize = orDefault (o_size options) 50;
                                 opacity = orDefault (o_opacity options) 0.5
                             in Inr (map (drawTextOn fnt text textSize opacity xRatio yRatio
                                           rotationAngle (length pages))
                                      (enumerate 0 pages))))))"

section \<open>The specification's notions\<close>

text \<open>
  The definitions of this section follow the wording of the specification, to be compared
  with the code above. Every element of the view is a valid index into the document. The
  range string is split at the commas and each token is trimmed. A position \<open>p\<close> of a
  range token maps to the element \<open>p - 1\<close> of the view when \<open>1 \<le> p \<le> viewSize\<close> and
  contributes nothing otherwise. A token with a dash is two integers, the text before the
  first dash and the text after it up to the next dash, and stands for the positions from
  the first to the second in that order; a token without a dash is one integer. The
  integers are the mathematical ones. A token is unparseable when an integer it needs is
  not a number, and safe when its integers are of magnitude below \<open>2 ^ 53\<close>.
\<close>

definition spec_viewInDocument :: "nat \<Rightarrow> int list \<Rightarrow> bool" where
  "spec_viewInDocument pageCount view = list_all (\<lambda>index. 0 \<le> index \<and> index < int pageCount) view"

function spec_fields :: "string \<Rightarrow> string list" where
  "spec_fields s =
     takeWhile (\<lambda>c. c \<noteq> CHR '','') s #
     (if CHR '','' \<in> set s then spec_fields (drop 1 (dropWhile (\<lambda>c. c \<noteq> CHR '','') s)) else [])"
  by pat_completeness auto
termination
proof (relation "measure length")
  show "wf (measure length)" by simp
next
  fix s :: string
  assume "CHR '','' \<in> set s"
  then have "dropWhile (\<lambda>c. c \<noteq> CHR '','') s \<noteq> []"
    by (simp add: dropWhile_eq_Nil_conv)
  moreover have "length (dropWhile (\<lambda>c. c \<noteq> CHR '','') s) \<le> length s"
    by (rule length_dropWhile_le)
  ultimately show "(drop 1 (dropWhile (\<lambda>c. c \<noteq> CHR '','') s), s) \<in> measure length"
    by (cases "dropWhile (\<lambda>c. c \<noteq> CHR '','') s") auto
qed

declare spec_fields.simps [simp del]

definition spec_tokens :: "string \<Rightarrow> string list" where
  "spec_tokens rangeString = map trim (spec_fields rangeString)"

definition spec_position :: "int list \<Rightarrow> int \<Rightarrow> int list" where
  "spec_position view p = (if 1 \<le> p \<and> p \<le> int (length view) then [view ! nat (p - 1)] else [])"

definition spec_startText :: "string \<Rightarrow> string" where
  "spec_startText token = takeWhile (\<lambda>c. c \<noteq> CHR ''-'') token"

definition spec_endText :: "string \<Rightarrow> string" where
  "spec_endText token = spec_startText (drop 1 (dropWhile (\<lambda>c. c \<noteq> CHR ''-'') token))"

definition spec_token :: "int list \<Rightarrow> string \<Rightarrow> int list" where
  "spec_token view token =
     (if CHR ''-'' \<in> set token
      then (case (mathInt (spec_startText token), mathInt (spec_endText token)) of
              (Some start, Some endn) \<Rightarrow> concat (map (spec_position view) [start..endn])
            | _ \<Rightarrow> [])
      else (case mathInt token of
              Some p \<Rightarrow> spec_position view p
            | None \<Rightarrow> []))"

definition spec_unparseable :: "string \<Rightarrow> bool" where
  "spec_unparseable token =
     (if CHR ''-'' \<in> set token
      then mathInt (spec_startText token) = None \<or> mathInt (spec_endText token) = None
      else mathInt token = None)"

definition spec_below :: "int option \<Rightarrow> bool" where
  "spec_below v = (case v of None \<Rightarrow> True | Some n \<Rightarrow> \<bar>n\<bar> < 2 ^ 53)"

definition spec_safe :: "string \<Rightarrow> bool" where
  "spec_safe token =
     (if CHR ''-'' \<in> set token
      then spec_below (mathInt (spec_startText token)) \<and> spec_below (mathInt (spec_endText token))
      else spec_below (mathInt token))"

text \<open>
  The files of an archive for a sequence of groups: a file for each group that is not
  empty, numbered by the place of the group.
\<close>

definition spec_files :: "int list list \<Rightarrow> (int \<times> int list) list" where
  "spec_files gs = filter (\<lambda>file. snd file \<noteq> []) (zip (map (\<lambda>k. int k + 1) [0..<length gs]) gs)"

text \<open>
  The visual centre of a text box drawn at an origin and rotated about it: the origin plus
  the rotated vector from the lower left corner of the box to its centre.
\<close>

definition spec_rotatedHalfExtent :: "real \<Rightarrow> real \<Rightarrow> real \<Rightarrow> real \<times> real" where
  "spec_rotatedHalfExtent rotationDegrees textWidth textHeight =
     (let theta = rotationDegrees * pi / 180
      in (textWidth / 2 * cos theta - textHeight / 2 * sin theta,
          textWidth / 2 * sin theta + textHeight / 2 * cos theta))"

definition spec_visualCenter :: "real \<times> real \<Rightarrow> real \<Rightarrow> real \<Rightarrow> real \<Rightarrow> real \<times> real" where
  "spec_visualCenter origin rotationDegrees textWidth textHeight =
     (fst origin + fst (spec_rotatedHalfExtent rotationDegrees textWidth textHeight),
      snd origin + snd (spec_rotatedHalfExtent rotationDegrees textWidth textHeight))"

text \<open>A font of fixed extents and the options of a text watermark, for the examples.\<close>

definition fixedFont :: "real \<Rightarrow> real \<Rightarrow> font" where
  "fixedFont w h = \<lparr>widthOfTextAtSize = (\<lambda>t s. w), heightAtSize = (\<lambda>s. h)\<rparr>"

definition textOptions :: "string \<Rightarrow> real option \<Rightarrow> real option \<Rightarrow> real \<Rightarrow> real \<Rightarrow> real \<Rightarrow> unit WatermarkOptions" where
  "textOptions t sz op ax ay rot =
     \<lparr>o_text = Some t, o_size = sz, o_opacity = op, o_file = None,
      o_x = Some ax, o_y = Some ay, o_rotation = Some rot\<rparr>"

text \<open>
  A text in which every opening brace starts a placeholder: a sequence of brace-free
  pieces and placeholders. \<open>sourceOf\<close> writes a piece as it stands in the text,
  \<open>spec_expansion\<close> as the specification wants it on a page; \<open>afterPage\<close> and
  \<open>afterTotal\<close> are the piece after the first and after the second replacement.
\<close>

datatype piece = Lit string | PageTok | TotalTok | PadTok string

text \<open>
  The width a run of digits asks for: the number the digits denote in decimal, which is
  their value up to \<open>2 ^ 53\<close>.
\<close>

definition spec_width :: "string \<Rightarrow> nat" where
  "spec_width ds = toDouble (digitsValue 10 ds)"

fun sourceOf :: "piece \<Rightarrow> string" where
  "sourceOf (Lit u) = u"
| "sourceOf PageTok = ''{page}''"
| "sourceOf TotalTok = ''{total}''"
| "sourceOf (PadTok ds) = ''{page:'' @ ds @ ''}''"

fun spec_expansion :: "nat \<Rightarrow> nat \<Rightarrow> piece \<Rightarrow> string" where
  "spec_expansion pageNumber totalPages (Lit u) = u"
| "spec_expansion pageNumber totalPages PageTok = toString pageNumber"
| "spec_expansion pageNumber totalPages TotalTok = toString totalPages"
| "spec_expansion pageNumber totalPages (PadTok ds) = padStart (toString pageNumber) (spec_width ds)"

fun wellFormed :: "piece \<Rightarrow> bool" where
  "wellFormed (Lit u) = (CHR ''{'' \<notin> set u)"
| "wellFormed (PadTok ds) = (ds \<noteq> [] \<and> list_all isDecDigit ds)"
| "wellFormed _ = True"

fun afterPage :: "string \<Rightarrow> piece \<Rightarrow> string" where
  "afterPage v PageTok = v"
| "afterPage v q = sourceOf q"

fun afterTotal :: "string \<Rightarrow> string \<Rightarrow> piece \<Rightarrow> string" where
  "afterTotal v w PageTok = v"
| "afterTotal v w TotalTok = w"
| "afterTotal v w q = sourceOf q"

section \<open>Rounding and the range loop\<close>

lemma roundInt_exact: "\<bar>x\<bar> \<le> 2 ^ 53 \<Longrightarrow> roundInt x = x"
  by (auto simp: roundInt_def toDouble_def)

lemma bitLength_between: "2 ^ k \<le> n \<Longrightarrow> n < 2 ^ Suc k \<Longrightarrow> bitLength n = Suc k"
proof (induction k arbitrary: n)
  case 0
  then have "n = 1" by simp
  then show ?case by (simp add: bitLength.simps)
next
  case (Suc k)
  from Suc.prems have "2 ^ k \<le> n div 2" and "n div 2 < 2 ^ Suc k" and "n \<noteq> 0"
    by auto
  with Suc.IH [of "n div 2"] show ?case
    by (subst bitLength.simps) simp
qed

lemma toDouble_stuck: "toDouble (2 ^ 53 + 1) = 2 ^ 53"
proof -
  have "bitLength (2 ^ 53 + 1) = Suc 53"
    by (rule bitLength_between) simp_all
  then show ?thesis
    by (simp add: toDouble_def Let_def)
qed

lemma roundInt_stuck: "roundInt (2 ^ 53 + 1) = 2 ^ 53"
proof -
  have "nat (2 ^ 53 + 1) = 2 ^ 53 + 1" by simp
  then show ?thesis
    using toDouble_stuck by (simp add: roundInt_def del: toDouble_stuck)
qed

lemma rangeLoop_done: "endn < j \<Longrightarrow> rangeLoop availableIndices j endn pageIndices = Some pageIndices"
  by (subst rangeLoop.simps) simp

lemma rangeLoop_closed:
  "- (2 ^ 53) \<le> j \<Longrightarrow> endn < 2 ^ 53 \<Longrightarrow>
   rangeLoop availableIndices j endn pageIndices =
     Some (pageIndices @ map (\<lambda>p. availableIndices ! nat (p - 1))
       (filter (\<lambda>p. 0 < p \<and> p \<le> int (length availableIndices)) [j..endn]))"
proof (induction "nat (endn + 1 - j)" arbitrary: j pageIndices)
  case 0
  then have "endn < j" by simp
  then show ?case by (simp add: rangeLoop_done)
next
  case (Suc n)
  then have le: "j \<le> endn" by simp
  with Suc.prems have "\<bar>j + 1\<bar> \<le> 2 ^ 53" by simp
  then have next_j: "roundInt (j + 1) = j + 1" by (rule roundInt_exact)
  have n: "n = nat (endn + 1 - (j + 1))" using Suc.hyps(2) by simp
  have lo: "- (2 ^ 53) \<le> j + 1" using Suc.prems(1) by simp
  have up: "[j..endn] = j # [j + 1..endn]" using le by (simp add: upto_rec1)
  show ?case
    by (subst rangeLoop.simps) (simp add: le next_j up Suc.hyps(1) [OF n lo Suc.prems(2)])
qed

lemma rangeLoop_hangs:
  assumes "rangeLoop availableIndices j endn pageIndices = Some r"
  shows "\<not> (- (2 ^ 53) \<le> j \<and> j \<le> 2 ^ 53 \<and> 2 ^ 53 \<le> endn)"
proof (rule rangeLoop.raw_induct
    [where P = "\<lambda>a j e acc r. \<not> (- (2 ^ 53) \<le> j \<and> j \<le> 2 ^ 53 \<and> 2 ^ 53 \<le> e)", OF _ assms])
  fix f :: "int list \<Rightarrow> int \<Rightarrow> int \<Rightarrow> int list \<Rightarrow> int list option"
  fix a j e acc r
  assume IH: "\<And>a j e acc r. f a j e acc = Some r \<Longrightarrow>
      \<not> (- (2 ^ 53) \<le> j \<and> j \<le> 2 ^ 53 \<and> 2 ^ 53 \<le> e)"
  assume body: "(if j \<le> e
      then f a (roundInt (j + 1)) e
             (if j > 0 \<and> j \<le> int (length a) then acc @ [a ! nat (j - 1)] else acc)
      else Some acc) = Some r"
  show "\<not> (- (2 ^ 53) \<le> j \<and> j \<le> 2 ^ 53 \<and> 2 ^ 53 \<le> e)"
  proof
    assume inv: "- (2 ^ 53) \<le> j \<and> j \<le> 2 ^ 53 \<and> 2 ^ 53 \<le> e"
    then have le: "j \<le> e" by simp
    from body le have call: "f a (roundInt (j + 1)) e
        (if j > 0 \<and> j \<le> int (length a) then acc @ [a ! nat (j - 1)] else acc) = Some r"
      by simp
    have step: "- (2 ^ 53) \<le> roundInt (j + 1) \<and> roundInt (j + 1) \<le> 2 ^ 53"
    proof (cases "j = 2 ^ 53")
      case True
      then show ?thesis using roundInt_stuck by simp
    next
      case False
      with inv have "\<bar>j + 1\<bar> \<le> 2 ^ 53" by (auto simp: abs_le_iff)
      then have "roundInt (j + 1) = j + 1" by (rule roundInt_exact)
      with inv False show ?thesis by auto
    qed
    from IH [OF call] step inv show False by blast
  qed
qed

lemma rangeLoop_never_returns:
  "- (2 ^ 53) \<le> j \<Longrightarrow> j \<le> 2 ^ 53 \<Longrightarrow> 2 ^ 53 \<le> endn \<Longrightarrow>
   rangeLoop availableIndices j endn pageIndices = None"
  using rangeLoop_hangs [of availableIndices j endn pageIndices]
  by (cases "rangeLoop availableIndices j endn pageIndices") auto

lemma rangeLoop_subset:
  assumes "rangeLoop availableIndices j endn pageIndices = Some r"
  shows "set r \<subseteq> set pageIndices \<union> set availableIndices"
proof (rule rangeLoop.raw_induct
    [where P = "\<lambda>a j e acc r. set r \<subseteq> set acc \<union> set a", OF _ assms])
  fix f :: "int list \<Rightarrow> int \<Rightarrow> int \<Rightarrow> int list \<Rightarrow> int list option"
  fix a j e acc r
  assume IH: "\<And>a j e acc r. f a j e acc = Some r \<Longrightarrow> set r \<subseteq> set acc \<union> set a"
  assume body: "(if j \<le> e
      then f a (roundInt (j + 1)) e
             (if j > 0 \<and> j \<le> int (length a) then acc @ [a ! nat (j - 1)] else acc)
      else Some acc) = Some r"
  show "set r \<subseteq> set acc \<union> set a"
  proof (cases "j \<le> e")
    case True
    let ?acc = "if j > 0 \<and> j \<le> int (length a) then acc @ [a ! nat (j - 1)] else acc"
    from body True have "f a (roundInt (j + 1)) e ?acc = Some r"
      by simp
    then have "set r \<subseteq> set ?acc \<union> set a" by (rule IH)
    moreover have "set ?acc \<subseteq> set acc \<union> set a"
      by auto
    ultimately show ?thesis by blast
  next
    case False
    with body show ?thesis by auto
  qed
qed

section \<open>Copying pages\<close>

lemma copyPages_Inr: "copyPages pageCount xs = Inr ys \<Longrightarrow> ys = xs"
  by (auto simp: copyPages_def split: if_splits)

lemma copyPages_Inl: "copyPages pageCount xs = Inl err \<Longrightarrow> err = CopyPagesTypeError"
  by (auto simp: copyPages_def split: if_splits)

lemma copyPages_in_document:
  "spec_viewInDocument pageCount view \<Longrightarrow> set xs \<subseteq> set view \<Longrightarrow> copyPages pageCount xs = Inr xs"
  by (auto simp: copyPages_def spec_viewInDocument_def list_all_iff)

lemma default_in_document: "spec_viewInDocument pageCount (defaultIndices pageCount)"
  by (auto simp: spec_viewInDocument_def defaultIndices_def list_all_iff)

section \<open>The loops in closed form\<close>

lemma eachLoop_Inr:
  "eachLoop pageCount availableIndices i files = Inr out \<Longrightarrow>
   out = files @ map (\<lambda>k. (int k + 1, [availableIndices ! k])) [i..<length availableIndices]"
proof (induction pageCount availableIndices i files rule: eachLoop.induct)
  case (1 pageCount availableIndices i files)
  show ?case
  proof (cases "i < length availableIndices")
    case True
    then have up: "[i..<length availableIndices] = i # [i + 1..<length availableIndices]"
      by (simp add: upt_conv_Cons)
    from "1.prems" True obtain page where
      c: "copyPages pageCount [availableIndices ! i] = Inr page" and
      r: "eachLoop pageCount availableIndices (i + 1) (files @ [(int i + 1, page)]) = Inr out"
      by (subst (asm) eachLoop.simps) (auto split: sum.splits)
    from c have "page = [availableIndices ! i]" by (rule copyPages_Inr)
    with "1.IH" [OF True c r] up show ?thesis by simp
  next
    case False
    with "1.prems" show ?thesis by (subst (asm) eachLoop.simps) simp
  qed
qed

lemma eachLoop_Inl:
  "eachLoop pageCount availableIndices i files = Inl err \<Longrightarrow> err = CopyPagesTypeError"
proof (induction pageCount availableIndices i files rule: eachLoop.induct)
  case (1 pageCount availableIndices i files)
  show ?case
  proof (cases "i < length availableIndices")
    case True
    show ?thesis
    proof (cases "copyPages pageCount [availableIndices ! i]")
      case (Inl e)
      with "1.prems" True copyPages_Inl [OF Inl] show ?thesis
        by (subst (asm) eachLoop.simps) simp
    next
      case (Inr page)
      with "1.prems" True have "eachLoop pageCount availableIndices (i + 1) (files @ [(int i + 1, page)]) = Inl err"
        by (subst (asm) eachLoop.simps) simp
      with "1.IH" [OF True Inr] show ?thesis by simp
    qed
  next
    case False
    with "1.prems" show ?thesis by (subst (asm) eachLoop.simps) simp
  qed
qed

lemma eachLoop_closed:
  "spec_viewInDocument pageCount availableIndices \<Longrightarrow>
   eachLoop pageCount availableIndices i files =
     Inr (files @ map (\<lambda>k. (int k + 1, [availableIndices ! k])) [i..<length availableIndices])"
proof (induction pageCount availableIndices i files rule: eachLoop.induct)
  case (1 pageCount availableIndices i files)
  show ?case
  proof (cases "i < length availableIndices")
    case True
    then have up: "[i..<length availableIndices] = i # [i + 1..<length availableIndices]"
      by (simp add: upt_conv_Cons)
    from True have c: "copyPages pageCount [availableIndices ! i] = Inr [availableIndices ! i]"
      using copyPages_in_document [OF "1.prems", of "[availableIndices ! i]"] by simp
    from "1.IH" [OF True c "1.prems"] True c up show ?thesis
      by (subst eachLoop.simps) simp
  next
    case False
    then show ?thesis by (subst eachLoop.simps) simp
  qed
qed

lemma selectedLoop_Inr:
  "selectedLoop pageCount availableIndices selectedPages files = Inr out \<Longrightarrow>
   out = files @ map (\<lambda>idx. (idx + 1, [availableIndices ! nat idx]))
     (filter (\<lambda>idx. 0 \<le> idx \<and> idx < int (length availableIndices)) selectedPages)"
proof (induction selectedPages arbitrary: files)
  case Nil
  then show ?case by simp
next
  case (Cons idx rest)
  show ?case
  proof (cases "0 \<le> idx \<and> idx < int (length availableIndices)")
    case True
    with Cons.prems obtain page where
      c: "copyPages pageCount [availableIndices ! nat idx] = Inr page" and
      r: "selectedLoop pageCount availableIndices rest (files @ [(idx + 1, page)]) = Inr out"
      by (auto split: sum.splits)
    from c have "page = [availableIndices ! nat idx]" by (rule copyPages_Inr)
    with Cons.IH [OF r] True show ?thesis by simp
  next
    case False
    with Cons.prems have "selectedLoop pageCount availableIndices rest files = Inr out"
      by auto
    with Cons.IH [of files] False show ?thesis by auto
  qed
qed

lemma selectedLoop_Inl:
  "selectedLoop pageCount availableIndices selectedPages files = Inl err \<Longrightarrow> err = CopyPagesTypeError"
proof (induction selectedPages arbitrary: files)
  case Nil
  then show ?case by simp
next
  case (Cons idx rest)
  then show ?case
    by (auto split: if_splits sum.splits dest: copyPages_Inl)
qed

lemma selectedLoop_closed:
  "spec_viewInDocument pageCount availableIndices \<Longrightarrow>
   selectedLoop pageCount availableIndices selectedPages files =
     Inr (files @ map (\<lambda>idx. (idx + 1, [availableIndices ! nat idx]))
       (filter (\<lambda>idx. 0 \<le> idx \<and> idx < int (length availableIndices)) selectedPages))"
proof (induction selectedPages arbitrary: files)
  case Nil
  show ?case by simp
next
  case (Cons idx rest)
  show ?case
  proof (cases "0 \<le> idx \<and> idx < int (length availableIndices)")
    case True
    then have "nat idx < length availableIndices" by auto
    then have "availableIndices ! nat idx \<in> set availableIndices" by (rule nth_mem)
    then have "copyPages pageCount [availableIndices ! nat idx] = Inr [availableIndices ! nat idx]"
      using copyPages_in_document [OF Cons.prems, of "[availableIndices ! nat idx]"] by simp
    with Cons.IH [OF Cons.prems] True show ?thesis by simp
  next
    case False
    with Cons.IH [OF Cons.prems] show ?thesis by auto
  qed
qed

lemma deleteLoop_closed:
  "deleteLoop availableIndices selectedPages i pageIndicesToKeep =
     pageIndicesToKeep @ map (\<lambda>k. availableIndices ! k)
       (filter (\<lambda>k. int k \<notin> set selectedPages) [i..<length availableIndices])"
proof (induction availableIndices selectedPages i pageIndicesToKeep rule: deleteLoop.induct)
  case (1 availableIndices selectedPages i pageIndicesToKeep)
  show ?case
  proof (cases "i < length availableIndices")
    case True
    then have "[i..<length availableIndices] = i # [i + 1..<length availableIndices]"
      by (simp add: upt_conv_Cons)
    with True 1 show ?thesis by (subst deleteLoop.simps) simp
  next
    case False
    then show ?thesis by (subst deleteLoop.simps) simp
  qed
qed

lemma deleteLoop_subset: "set (deleteLoop availableIndices selectedPages 0 []) \<subseteq> set availableIndices"
  by (auto simp: deleteLoop_closed)

lemma indicesToExtract_subset: "set (indicesToExtract availableIndices selectedPages) \<subseteq> set availableIndices"
  by (auto simp: indicesToExtract_def)

lemma singleDocument_in_document:
  "spec_viewInDocument pageCount view \<Longrightarrow> set xs \<subseteq> set view \<Longrightarrow>
   singleDocument pageCount xs = Inr (Pdf xs)"
  using copyPages_in_document [of pageCount view xs]
  by (simp add: singleDocument_def)

lemma singleDocument_Inr: "singleDocument pageCount xs = Inr out \<Longrightarrow> out = Pdf xs"
  by (auto simp: singleDocument_def split: if_splits sum.splits dest: copyPages_Inr)

lemma singleDocument_Inl: "singleDocument pageCount xs = Inl err \<Longrightarrow> err = CopyPagesTypeError"
  by (auto simp: singleDocument_def split: if_splits sum.splits dest: copyPages_Inl)

lemma pageIndicesOf_subset:
  "pageIndicesOf availableIndices part = Some g \<Longrightarrow> set g \<subseteq> set availableIndices"
  using rangeLoop_subset [of availableIndices _ _ "[]" g]
  by (auto simp: pageIndicesOf_def split: if_splits list.splits option.splits)

lemma rangesLoop_Inr:
  "rangesLoop pageCount availableIndices parts i files = Some (Inr out) \<Longrightarrow>
   \<exists>more. out = files @ more \<and> (\<forall>file \<in> set more. set (snd file) \<subseteq> set availableIndices)"
proof (induction pageCount availableIndices parts i files rule: rangesLoop.induct)
  case (1 pageCount availableIndices parts i files)
  show ?case
  proof (cases "i < length parts")
    case True
    from "1.prems" True obtain g where g: "pageIndicesOf availableIndices (parts ! i) = Some g"
      by (subst (asm) rangesLoop.simps) (auto split: option.splits)
    show ?thesis
    proof (cases "length g > 0")
      case pos: True
      from "1.prems" True g pos obtain pages where
        c: "copyPages pageCount g = Inr pages" and
        r: "rangesLoop pageCount availableIndices parts (i + 1) (files @ [(int i + 1, pages)]) = Some (Inr out)"
        by (subst (asm) rangesLoop.simps) (auto split: sum.splits)
      from c have "pages = g" by (rule copyPages_Inr)
      with pageIndicesOf_subset [OF g] have sub: "set pages \<subseteq> set availableIndices" by simp
      from "1.IH"(1) [OF True g pos c r] obtain more where
        "out = (files @ [(int i + 1, pages)]) @ more" and
        "\<forall>file \<in> set more. set (snd file) \<subseteq> set availableIndices" by blast
      with sub show ?thesis by (intro exI [of _ "(int i + 1, pages) # more"]) auto
    next
      case zero: False
      with "1.prems" True g have "rangesLoop pageCount availableIndices parts (i + 1) files = Some (Inr out)"
        by (subst (asm) rangesLoop.simps) simp
      with "1.IH"(2) [OF True g zero] show ?thesis by simp
    qed
  next
    case False
    with "1.prems" show ?thesis by (subst (asm) rangesLoop.simps) simp
  qed
qed

lemma rangesLoop_Inl:
  "rangesLoop pageCount availableIndices parts i files = Some (Inl err) \<Longrightarrow>
   err = CopyPagesTypeError \<and> \<not> spec_viewInDocument pageCount availableIndices"
proof (induction pageCount availableIndices parts i files rule: rangesLoop.induct)
  case (1 pageCount availableIndices parts i files)
  show ?case
  proof (cases "i < length parts")
    case True
    from "1.prems" True obtain g where g: "pageIndicesOf availableIndices (parts ! i) = Some g"
      by (subst (asm) rangesLoop.simps) (auto split: option.splits)
    show ?thesis
    proof (cases "length g > 0")
      case pos: True
      show ?thesis
      proof (cases "copyPages pageCount g")
        case (Inl e)
        with "1.prems" True g pos have "err = e"
          by (subst (asm) rangesLoop.simps) simp
        moreover from Inl have "e = CopyPagesTypeError" by (rule copyPages_Inl)
        moreover have "\<not> spec_viewInDocument pageCount availableIndices"
          using copyPages_in_document [OF _ pageIndicesOf_subset [OF g], of pageCount] Inl by auto
        ultimately show ?thesis by simp
      next
        case (Inr pages)
        with "1.prems" True g pos have
          "rangesLoop pageCount availableIndices parts (i + 1) (files @ [(int i + 1, pages)]) = Some (Inl err)"
          by (subst (asm) rangesLoop.simps) simp
        with "1.IH"(1) [OF True g pos Inr] show ?thesis by simp
      qed
    next
      case zero: False
      with "1.prems" True g have "rangesLoop pageCount availableIndices parts (i + 1) files = Some (Inl err)"
        by (subst (asm) rangesLoop.simps) simp
      with "1.IH"(2) [OF True g zero] show ?thesis by simp
    qed
  next
    case False
    with "1.prems" show ?thesis by (subst (asm) rangesLoop.simps) simp
  qed
qed

lemma rangesLoop_closed:
  assumes "spec_viewInDocument pageCount availableIndices"
    and "map (pageIndicesOf availableIndices) parts = map Some gs"
  shows "rangesLoop pageCount availableIndices parts i files =
     Some (Inr (files @ filter (\<lambda>file. snd file \<noteq> []) (map (\<lambda>k. (int k + 1, gs ! k)) [i..<length parts])))"
  using assms
proof (induction pageCount availableIndices parts i files rule: rangesLoop.induct)
  case (1 pageCount availableIndices parts i files)
  show ?case
  proof (cases "i < length parts")
    case True
    then have up: "[i..<length parts] = i # [i + 1..<length parts]"
      by (simp add: upt_conv_Cons)
    from "1.prems"(2) have len: "length gs = length parts"
      by (metis length_map)
    from "1.prems"(2) True len have g: "pageIndicesOf availableIndices (parts ! i) = Some (gs ! i)"
      by (metis nth_map)
    show ?thesis
    proof (cases "length (gs ! i) > 0")
      case pos: True
      have c: "copyPages pageCount (gs ! i) = Inr (gs ! i)"
        using copyPages_in_document [OF "1.prems"(1) pageIndicesOf_subset [OF g]] .
      from "1.IH"(1) [OF True g pos c "1.prems"] True g pos c up show ?thesis
        by (subst rangesLoop.simps) simp
    next
      case zero: False
      from "1.IH"(2) [OF True g zero "1.prems"] True g zero up show ?thesis
        by (subst rangesLoop.simps) simp
    qed
  next
    case False
    then show ?thesis by (subst rangesLoop.simps) simp
  qed
qed

lemma rangesLoop_all_empty:
  assumes "\<forall>part \<in> set parts. pageIndicesOf availableIndices part = Some []"
  shows "rangesLoop pageCount availableIndices parts i files = Some (Inr files)"
  using assms
proof (induction pageCount availableIndices parts i files rule: rangesLoop.induct)
  case (1 pageCount availableIndices parts i files)
  show ?case
  proof (cases "i < length parts")
    case True
    with "1.prems" have g: "pageIndicesOf availableIndices (parts ! i) = Some []"
      by simp
    from "1.IH"(2) [OF True g _ "1.prems"] True g show ?thesis
      by (subst rangesLoop.simps) simp
  next
    case False
    then show ?thesis by (subst rangesLoop.simps) simp
  qed
qed

lemma rangesLoop_hangs:
  assumes "pageIndicesOf availableIndices (parts ! 0) = None" and "parts \<noteq> []"
  shows "rangesLoop pageCount availableIndices parts 0 files = None"
  using assms by (subst rangesLoop.simps) simp

lemmas parse_evals = parseInt_def mathInt_def roundInt_def toDouble_def isWhiteSpace_def
  isRadixDigit_def digitValue_def digitsValue_def

lemma singletons_of_view: "map (\<lambda>k. [xs ! k]) [0..<length xs] = map (\<lambda>v. [v]) xs"
proof -
  have "map (\<lambda>k. [xs ! k]) [0..<length xs] = map (\<lambda>v. [v]) (map (\<lambda>k. xs ! k) [0..<length xs])"
    by (simp add: comp_def)
  also have "\<dots> = map (\<lambda>v. [v]) xs"
    by (simp only: map_nth)
  finally show ?thesis .
qed

lemma each_closed:
  "spec_viewInDocument pageCount (availableIndicesOf pageCount sourceIndices) \<Longrightarrow>
   splitPdf pageCount Each ranges selectedPages sourceIndices =
     Some (Inr (Zip (map (\<lambda>k. (int k + 1, [availableIndicesOf pageCount sourceIndices ! k]))
                [0..<length (availableIndicesOf pageCount sourceIndices)])))"
  by (simp add: splitPdf_def Let_def eachLoop_closed archive_def)

lemma delete_closed:
  "spec_viewInDocument pageCount (availableIndicesOf pageCount sourceIndices) \<Longrightarrow>
   splitPdf pageCount Delete ranges (Some selectedPages) sourceIndices =
     Some (Inr (Pdf (map (\<lambda>k. availableIndicesOf pageCount sourceIndices ! k)
                (filter (\<lambda>k. int k \<notin> set selectedPages)
                   [0..<length (availableIndicesOf pageCount sourceIndices)]))))"
  using singleDocument_in_document [OF _ deleteLoop_subset, of pageCount
      "availableIndicesOf pageCount sourceIndices" selectedPages]
  by (simp add: splitPdf_def Let_def deleteLoop_closed)

lemma delete_order:
  "set selectedPages = set selectedPages' \<Longrightarrow>
   splitPdf pageCount Delete ranges (Some selectedPages) sourceIndices =
   splitPdf pageCount Delete ranges (Some selectedPages') sourceIndices"
  by (simp add: splitPdf_def Let_def deleteLoop_closed)

lemma five: "[0..<length [v0, v1, v2, v3, v4]] = [0, 1, 2, 3, 4]"
  by (simp add: upt_rec)

section \<open>One file per page\<close>

text \<open>
  Claim C8. In the mode \<open>each\<close>, on a view whose elements are pages of the document, the
  archive holds one file per position of the view, in view order, numbered from 1; the file
  of position \<open>k\<close> holds the single page index the view has at \<open>k\<close>. So a view of size N
  gives exactly N groups, each a singleton, and the groups are the elements of the view, one
  by one.
\<close>

theorem each_mode_singletons:
  assumes "spec_viewInDocument pageCount (availableIndicesOf pageCount sourceIndices)"
  shows "splitPdf pageCount Each ranges selectedPages sourceIndices =
     Some (Inr (Zip (map (\<lambda>k. (int k + 1, [availableIndicesOf pageCount sourceIndices ! k]))
                [0..<length (availableIndicesOf pageCount sourceIndices)])))
   \<and> groups (Zip (map (\<lambda>k. (int k + 1, [availableIndicesOf pageCount sourceIndices ! k]))
                [0..<length (availableIndicesOf pageCount sourceIndices)])) =
       map (\<lambda>v. [v]) (availableIndicesOf pageCount sourceIndices)
   \<and> length (groups (Zip (map (\<lambda>k. (int k + 1, [availableIndicesOf pageCount sourceIndices ! k]))
                [0..<length (availableIndicesOf pageCount sourceIndices)]))) =
       length (availableIndicesOf pageCount sourceIndices)"
  using each_closed [OF assms] by (simp add: comp_def singletons_of_view)

theorem each_mode_singletons_witness:
  "spec_viewInDocument 20 (availableIndicesOf 20 (Some [10, 11, 12, 13, 14]))
   \<and> splitPdf 20 Each None None (Some [10, 11, 12, 13, 14]) =
     Some (Inr (Zip [(1, [10]), (2, [11]), (3, [12]), (4, [13]), (5, [14])]))"
proof -
  have h: "spec_viewInDocument 20 (availableIndicesOf 20 (Some [10, 11, 12, 13, 14]))"
    by (simp add: spec_viewInDocument_def availableIndicesOf_def)
  from each_mode_singletons [OF h, of None None]
  have "splitPdf 20 Each None None (Some [10, 11, 12, 13, 14]) =
     Some (Inr (Zip [(1, [10]), (2, [11]), (3, [12]), (4, [13]), (5, [14])]))"
    by (simp add: availableIndicesOf_def upt_rec)
  with h show ?thesis by simp
qed

section \<open>Deleting pages\<close>

text \<open>
  Claim C6. In the mode \<open>delete\<close>, on a view whose elements are pages of the document and
  with the list of the view positions to exclude, the result is one document: the page
  indices the view has at the positions that are not in the list, by ascending position.
  Only the set of the excluded positions counts, not the order they come in: excluding 1
  and 3, in either order, from a view of five pages keeps the pages at positions 0, 2
  and 4.
\<close>

theorem delete_mode_complement:
  assumes "spec_viewInDocument pageCount (availableIndicesOf pageCount sourceIndices)"
  shows "splitPdf pageCount Delete ranges (Some selectedPages) sourceIndices =
     Some (Inr (Pdf (map (\<lambda>k. availableIndicesOf pageCount sourceIndices ! k)
                (filter (\<lambda>k. int k \<notin> set selectedPages)
                   [0..<length (availableIndicesOf pageCount sourceIndices)]))))
   \<and> (set selectedPages = set selectedPages' \<longrightarrow>
        splitPdf pageCount Delete ranges (Some selectedPages) sourceIndices =
        splitPdf pageCount Delete ranges (Some selectedPages') sourceIndices)
   \<and> (spec_viewInDocument pageCount [v0, v1, v2, v3, v4] \<longrightarrow>
        splitPdf pageCount Delete ranges (Some [1, 3]) (Some [v0, v1, v2, v3, v4]) =
          Some (Inr (Pdf [v0, v2, v4]))
        \<and> splitPdf pageCount Delete ranges (Some [3, 1]) (Some [v0, v1, v2, v3, v4]) =
          Some (Inr (Pdf [v0, v2, v4])))"
proof -
  have order: "set selectedPages = set selectedPages' \<longrightarrow>
      splitPdf pageCount Delete ranges (Some selectedPages) sourceIndices =
      splitPdf pageCount Delete ranges (Some selectedPages') sourceIndices"
    by (rule impI) (rule delete_order)
  have ex: "spec_viewInDocument pageCount [v0, v1, v2, v3, v4] \<longrightarrow>
        splitPdf pageCount Delete ranges (Some [1, 3]) (Some [v0, v1, v2, v3, v4]) =
          Some (Inr (Pdf [v0, v2, v4]))
        \<and> splitPdf pageCount Delete ranges (Some [3, 1]) (Some [v0, v1, v2, v3, v4]) =
          Some (Inr (Pdf [v0, v2, v4]))"
  proof
    assume "spec_viewInDocument pageCount [v0, v1, v2, v3, v4]"
    then have h: "spec_viewInDocument pageCount (availableIndicesOf pageCount (Some [v0, v1, v2, v3, v4]))"
      by (simp add: availableIndicesOf_def)
    have a: "availableIndicesOf pageCount (Some [v0, v1, v2, v3, v4]) = [v0, v1, v2, v3, v4]"
      by (simp add: availableIndicesOf_def)
    show "splitPdf pageCount Delete ranges (Some [1, 3]) (Some [v0, v1, v2, v3, v4]) =
          Some (Inr (Pdf [v0, v2, v4]))
        \<and> splitPdf pageCount Delete ranges (Some [3, 1]) (Some [v0, v1, v2, v3, v4]) =
          Some (Inr (Pdf [v0, v2, v4]))"
      unfolding delete_closed [OF h] a five by simp
  qed
  note main = delete_closed [OF assms, of ranges selectedPages]
  show ?thesis
    by (intro conjI; (rule main order ex))
qed

theorem delete_mode_complement_witness:
  "spec_viewInDocument 20 (availableIndicesOf 20 (Some [10, 11, 12, 13, 14]))
   \<and> set [1, 3] = set [3, 1 :: int]
   \<and> splitPdf 20 Delete None (Some [1, 3]) (Some [10, 11, 12, 13, 14]) = Some (Inr (Pdf [10, 12, 14]))
   \<and> splitPdf 20 Delete None (Some [3, 1]) (Some [10, 11, 12, 13, 14]) = Some (Inr (Pdf [10, 12, 14]))
   \<and> splitPdf 20 Delete None (Some [1, 3]) (Some [10, 11, 12, 13, 14]) =
       splitPdf 20 Delete None (Some [3, 1]) (Some [10, 11, 12, 13, 14])"
proof -
  have h: "spec_viewInDocument 20 (availableIndicesOf 20 (Some [10, 11, 12, 13, 14]))"
    by (simp add: spec_viewInDocument_def availableIndicesOf_def)
  have h': "spec_viewInDocument 20 [10, 11, 12, 13, 14]"
    by (simp add: spec_viewInDocument_def)
  note t = delete_mode_complement [OF h, of None "[1, 3]" "[3, 1]" 10 11 12 13 14]
  have s: "set [1, 3] = set [3, 1 :: int]"
    by (simp add: insert_commute)
  from t s have order: "splitPdf 20 Delete None (Some [1, 3]) (Some [10, 11, 12, 13, 14]) =
      splitPdf 20 Delete None (Some [3, 1]) (Some [10, 11, 12, 13, 14])"
    by blast
  from t h' have ex: "splitPdf 20 Delete None (Some [1, 3]) (Some [10, 11, 12, 13, 14]) = Some (Inr (Pdf [10, 12, 14]))
      \<and> splitPdf 20 Delete None (Some [3, 1]) (Some [10, 11, 12, 13, 14]) = Some (Inr (Pdf [10, 12, 14]))"
    by blast
  from h s order ex show ?thesis by blast
qed

section \<open>Selected pages, apart or together\<close>

text \<open>
  Against claim C7 as it stands: with an empty list of positions the mode \<open>selected\<close>
  writes no archive and the mode \<open>extract\<close> no document of one empty group; both raise.
\<close>

theorem empty_selection_raises:
  "splitPdf 20 Selected None (Some []) (Some [10, 11, 12, 13, 14]) = Some (Inl InvalidSplitMode)
   \<and> splitPdf 20 Extract None (Some []) (Some [10, 11, 12, 13, 14]) = Some (Inl InvalidSplitMode)"
  by (simp add: splitPdf_def Let_def)

text \<open>
  Claim C7, amended. In the modes \<open>selected\<close> and \<open>extract\<close>, with a list of view
  positions that is not empty and a view whose elements are pages of the document, the
  positions inside the view are resolved in the order they were supplied: \<open>selected\<close>
  writes one file per such position, holding the single page index the view has there, and
  \<open>extract\<close> puts all of them into one document. Nothing is sorted: the positions 3, 0
  give the page at 3 before the page at 0. With an empty list both modes raise the error of
  an invalid mode.
\<close>

theorem selected_extract_keep_order:
  assumes "selectedPages \<noteq> []"
    and "spec_viewInDocument pageCount (availableIndicesOf pageCount sourceIndices)"
  shows "splitPdf pageCount Selected ranges (Some selectedPages) sourceIndices =
     Some (Inr (Zip (map (\<lambda>idx. (idx + 1, [availableIndicesOf pageCount sourceIndices ! nat idx]))
                (filter (\<lambda>idx. 0 \<le> idx \<and> idx < int (length (availableIndicesOf pageCount sourceIndices)))
                   selectedPages))))
   \<and> splitPdf pageCount Extract ranges (Some selectedPages) sourceIndices =
     Some (Inr (Pdf (map (\<lambda>idx. availableIndicesOf pageCount sourceIndices ! nat idx)
                (filter (\<lambda>idx. 0 \<le> idx \<and> idx < int (length (availableIndicesOf pageCount sourceIndices)))
                   selectedPages))))
   \<and> (spec_viewInDocument pageCount [v0, v1, v2, v3, v4] \<longrightarrow>
        splitPdf pageCount Selected ranges (Some [3, 0]) (Some [v0, v1, v2, v3, v4]) =
          Some (Inr (Zip [(4, [v3]), (1, [v0])]))
        \<and> splitPdf pageCount Extract ranges (Some [3, 0]) (Some [v0, v1, v2, v3, v4]) =
          Some (Inr (Pdf [v3, v0])))
   \<and> splitPdf pageCount Selected ranges (Some []) sourceIndices = Some (Inl InvalidSplitMode)
   \<and> splitPdf pageCount Extract ranges (Some []) sourceIndices = Some (Inl InvalidSplitMode)"
proof -
  have emp1: "splitPdf pageCount Selected ranges (Some []) sourceIndices = Some (Inl InvalidSplitMode)"
    by (simp add: splitPdf_def Let_def)
  have emp2: "splitPdf pageCount Extract ranges (Some []) sourceIndices = Some (Inl InvalidSplitMode)"
    by (simp add: splitPdf_def Let_def)
  have sel: "\<And>sel src. sel \<noteq> [] \<Longrightarrow> spec_viewInDocument pageCount (availableIndicesOf pageCount src) \<Longrightarrow>
      splitPdf pageCount Selected ranges (Some sel) src =
        Some (Inr (Zip (map (\<lambda>idx. (idx + 1, [availableIndicesOf pageCount src ! nat idx]))
                (filter (\<lambda>idx. 0 \<le> idx \<and> idx < int (length (availableIndicesOf pageCount src))) sel))))"
    by (simp add: splitPdf_def Let_def selectedLoop_closed archive_def)
  have ext: "\<And>sel src. sel \<noteq> [] \<Longrightarrow> spec_viewInDocument pageCount (availableIndicesOf pageCount src) \<Longrightarrow>
      splitPdf pageCount Extract ranges (Some sel) src =
        Some (Inr (Pdf (map (\<lambda>idx. availableIndicesOf pageCount src ! nat idx)
                (filter (\<lambda>idx. 0 \<le> idx \<and> idx < int (length (availableIndicesOf pageCount src))) sel))))"
  proof -
    fix sel :: "int list" and src
    assume ne: "sel \<noteq> []" and h: "spec_viewInDocument pageCount (availableIndicesOf pageCount src)"
    from singleDocument_in_document [OF h indicesToExtract_subset, of sel] ne
    show "splitPdf pageCount Extract ranges (Some sel) src =
        Some (Inr (Pdf (map (\<lambda>idx. availableIndicesOf pageCount src ! nat idx)
                (filter (\<lambda>idx. 0 \<le> idx \<and> idx < int (length (availableIndicesOf pageCount src))) sel))))"
      by (simp add: splitPdf_def Let_def indicesToExtract_def)
  qed
  have ex: "spec_viewInDocument pageCount [v0, v1, v2, v3, v4] \<longrightarrow>
        splitPdf pageCount Selected ranges (Some [3, 0]) (Some [v0, v1, v2, v3, v4]) =
          Some (Inr (Zip [(4, [v3]), (1, [v0])]))
        \<and> splitPdf pageCount Extract ranges (Some [3, 0]) (Some [v0, v1, v2, v3, v4]) =
          Some (Inr (Pdf [v3, v0]))"
  proof
    assume "spec_viewInDocument pageCount [v0, v1, v2, v3, v4]"
    then have h: "spec_viewInDocument pageCount (availableIndicesOf pageCount (Some [v0, v1, v2, v3, v4]))"
      by (simp add: availableIndicesOf_def)
    have ne: "[3, 0] \<noteq> ([] :: int list)" by simp
    show "splitPdf pageCount Selected ranges (Some [3, 0]) (Some [v0, v1, v2, v3, v4]) =
          Some (Inr (Zip [(4, [v3]), (1, [v0])]))
        \<and> splitPdf pageCount Extract ranges (Some [3, 0]) (Some [v0, v1, v2, v3, v4]) =
          Some (Inr (Pdf [v3, v0]))"
      unfolding sel [OF ne h] ext [OF ne h] by (simp add: availableIndicesOf_def)
  qed
  note s = sel [OF assms] and e = ext [OF assms]
  show ?thesis
    by (intro conjI; (rule s e ex emp1 emp2))
qed

theorem selected_extract_keep_order_witness:
  "[3, 0] \<noteq> ([] :: int list)
   \<and> spec_viewInDocument 20 (availableIndicesOf 20 (Some [10, 11, 12, 13, 14]))
   \<and> splitPdf 20 Selected None (Some [3, 0]) (Some [10, 11, 12, 13, 14]) =
       Some (Inr (Zip [(4, [13]), (1, [10])]))
   \<and> splitPdf 20 Extract None (Some [3, 0]) (Some [10, 11, 12, 13, 14]) = Some (Inr (Pdf [13, 10]))"
proof -
  have ne: "[3, 0] \<noteq> ([] :: int list)" by simp
  have h: "spec_viewInDocument 20 (availableIndicesOf 20 (Some [10, 11, 12, 13, 14]))"
    by (simp add: spec_viewInDocument_def availableIndicesOf_def)
  from selected_extract_keep_order [OF ne h, of None]
  have "splitPdf 20 Selected None (Some [3, 0]) (Some [10, 11, 12, 13, 14]) =
       Some (Inr (Zip [(4, [13]), (1, [10])]))
     \<and> splitPdf 20 Extract None (Some [3, 0]) (Some [10, 11, 12, 13, 14]) = Some (Inr (Pdf [13, 10]))"
    by (simp add: availableIndicesOf_def)
  with ne h show ?thesis by blast
qed

section \<open>Every page of the plan comes from the view\<close>

lemma archive_Inr: "archive r = Inr out \<Longrightarrow> \<exists>files. r = Inr files \<and> out = Zip files"
  by (cases r) (auto simp: archive_def)

lemma archive_Inl: "archive r = Inl err \<Longrightarrow> r = Inl err"
  by (cases r) (auto simp: archive_def)

text \<open>
  Claim C5. Whatever the mode and the input, when \<open>splitPdf\<close> returns a result, every
  page index of every file it writes is an element of the view: of \<open>sourceIndices\<close> when
  supplied, of the indices of all pages otherwise.
\<close>

theorem plan_within_view:
  assumes "splitPdf pageCount mode ranges selectedPages sourceIndices = Some (Inr out)"
    and "g \<in> set (groups out)"
  shows "set g \<subseteq> set (availableIndicesOf pageCount sourceIndices)"
proof -
  let ?a = "availableIndicesOf pageCount sourceIndices"
  show ?thesis
  proof (cases mode)
    case Each
    with assms(1) have "archive (eachLoop pageCount ?a 0 []) = Inr out"
      by (simp add: splitPdf_def Let_def)
    then obtain files where "eachLoop pageCount ?a 0 [] = Inr files" and "out = Zip files"
      using archive_Inr by blast
    with eachLoop_Inr [of pageCount ?a 0 "[]" files] assms(2) show ?thesis
      by auto
  next
    case Ranges
    with assms(1) obtain parts where
      "map_option archive (rangesLoop pageCount ?a parts 0 []) = Some (Inr out)"
      by (auto simp: splitPdf_def Let_def split: if_splits)
    then obtain r where r: "rangesLoop pageCount ?a parts 0 [] = Some r" and "archive r = Inr out"
      by auto
    then obtain files where f: "r = Inr files" and o: "out = Zip files"
      using archive_Inr by blast
    from rangesLoop_Inr [OF r [unfolded f]] have "\<forall>file \<in> set files. set (snd file) \<subseteq> set ?a"
      by auto
    with o assms(2) show ?thesis by auto
  next
    case Selected
    with assms(1) obtain sel where "archive (selectedLoop pageCount ?a sel []) = Inr out"
      by (auto simp: splitPdf_def Let_def split: if_splits)
    then obtain files where "selectedLoop pageCount ?a sel [] = Inr files" and "out = Zip files"
      using archive_Inr by blast
    with selectedLoop_Inr [of pageCount ?a sel "[]" files] assms(2) show ?thesis
      by auto
  next
    case Delete
    with assms(1) obtain sel where "singleDocument pageCount (deleteLoop ?a sel 0 []) = Inr out"
      by (auto simp: splitPdf_def Let_def split: if_splits)
    from singleDocument_Inr [OF this] deleteLoop_subset [of ?a sel] assms(2) show ?thesis
      by auto
  next
    case Extract
    with assms(1) obtain sel where "singleDocument pageCount (indicesToExtract ?a sel) = Inr out"
      by (auto simp: splitPdf_def Let_def split: if_splits)
    from singleDocument_Inr [OF this] indicesToExtract_subset [of ?a sel] assms(2) show ?thesis
      by auto
  qed
qed

section \<open>Range tokens\<close>

lemma split_chr_nonempty: "split_chr sep s \<noteq> []"
  by (induction s) (auto split: list.splits)

lemma split_chr_unfold:
  "split_chr sep s =
     takeWhile (\<lambda>c. c \<noteq> sep) s #
     (if sep \<in> set s then split_chr sep (drop 1 (dropWhile (\<lambda>c. c \<noteq> sep) s)) else [])"
proof (induction s)
  case Nil
  show ?case by simp
next
  case (Cons c cs)
  show ?case
  proof (cases "c = sep")
    case True
    then show ?thesis by simp
  next
    case False
    obtain p ps where p: "split_chr sep cs = p # ps"
      using split_chr_nonempty [of sep cs] by (cases "split_chr sep cs") auto
    with Cons False show ?thesis by (auto split: if_splits)
  qed
qed

lemma split_comma_fields: "split_chr CHR '','' s = spec_fields s"
proof (induction s rule: spec_fields.induct)
  case (1 s)
  show ?case
  proof (cases "CHR '','' \<in> set s")
    case True
    with 1 show ?thesis
      by (subst split_chr_unfold, subst spec_fields.simps) simp
  next
    case False
    then show ?thesis
      by (subst split_chr_unfold, subst spec_fields.simps) simp
  qed
qed

lemma partsOf_tokens: "partsOf ranges = spec_tokens ranges"
  by (simp add: partsOf_def spec_tokens_def split_comma_fields)

lemma split_dash_pieces:
  assumes "CHR ''-'' \<in> set token"
  shows "\<exists>more. split_chr CHR ''-'' token = spec_startText token # spec_endText token # more"
proof -
  let ?rest = "drop 1 (dropWhile (\<lambda>c. c \<noteq> CHR ''-'') token)"
  have "split_chr CHR ''-'' token = spec_startText token # split_chr CHR ''-'' ?rest"
    using assms split_chr_unfold [of "CHR ''-''" token] by (simp add: spec_startText_def)
  moreover have "\<exists>more. split_chr CHR ''-'' ?rest = spec_endText token # more"
    using split_chr_unfold [of "CHR ''-''" ?rest] by (simp add: spec_endText_def spec_startText_def)
  ultimately show ?thesis by auto
qed

lemma concat_spec_position:
  "concat (map (spec_position view) ps) =
     map (\<lambda>p. view ! nat (p - 1)) (filter (\<lambda>p. 0 < p \<and> p \<le> int (length view)) ps)"
  by (induction ps) (auto simp: spec_position_def)

lemma parseInt_below: "mathInt s = Some v \<Longrightarrow> \<bar>v\<bar> < 2 ^ 53 \<Longrightarrow> parseInt s = Some v"
  by (simp add: parseInt_def roundInt_exact)

lemma parseInt_None: "(parseInt s = None) = (mathInt s = None)"
  by (simp add: parseInt_def)

lemma pageIndicesOf_spec:
  assumes "spec_safe token"
  shows "pageIndicesOf view token = Some (spec_token view token)"
proof (cases "CHR ''-'' \<in> set token")
  case True
  then obtain more where pieces:
    "split_chr CHR ''-'' token = spec_startText token # spec_endText token # more"
    using split_dash_pieces by blast
  show ?thesis
  proof (cases "mathInt (spec_startText token)")
    case None
    then have "parseInt (spec_startText token) = None" by (simp add: parseInt_None)
    with True pieces None show ?thesis
      by (simp add: pageIndicesOf_def spec_token_def)
  next
    case (Some s)
    note s = Some
    show ?thesis
    proof (cases "mathInt (spec_endText token)")
      case None
      then have "parseInt (spec_endText token) = None" by (simp add: parseInt_None)
      with True pieces None show ?thesis
        by (simp add: pageIndicesOf_def spec_token_def split: option.splits)
    next
      case (Some e)
      from assms True s Some have bs: "\<bar>s\<bar> < 2 ^ 53" and be: "\<bar>e\<bar> < 2 ^ 53"
        by (simp_all add: spec_safe_def spec_below_def)
      from parseInt_below [OF s bs] parseInt_below [OF Some be]
      have ps: "parseInt (spec_startText token) = Some s" and pe: "parseInt (spec_endText token) = Some e" .
      from bs be have lo: "- (2 ^ 53) \<le> s" and hi: "e < 2 ^ 53" by auto
      from True pieces s Some ps pe show ?thesis
        by (simp add: pageIndicesOf_def spec_token_def rangeLoop_closed [OF lo hi] concat_spec_position)
    qed
  qed
next
  case False
  show ?thesis
  proof (cases "mathInt token")
    case None
    then have "parseInt token = None" by (simp add: parseInt_None)
    with False None show ?thesis
      by (simp add: pageIndicesOf_def spec_token_def)
  next
    case (Some p)
    with assms False have "\<bar>p\<bar> < 2 ^ 53"
      by (simp add: spec_safe_def spec_below_def)
    from parseInt_below [OF Some this] False Some show ?thesis
      by (simp add: pageIndicesOf_def spec_token_def spec_position_def)
  qed
qed

lemma unparseable_empty:
  assumes "spec_unparseable token"
  shows "pageIndicesOf view token = Some []"
proof (cases "CHR ''-'' \<in> set token")
  case True
  then obtain more where pieces:
    "split_chr CHR ''-'' token = spec_startText token # spec_endText token # more"
    using split_dash_pieces by blast
  from assms True have "parseInt (spec_startText token) = None \<or> parseInt (spec_endText token) = None"
    by (simp add: spec_unparseable_def parseInt_None)
  with True pieces show ?thesis
    by (auto simp: pageIndicesOf_def split: option.splits)
next
  case False
  with assms have "parseInt token = None"
    by (simp add: spec_unparseable_def parseInt_None)
  with False show ?thesis by (simp add: pageIndicesOf_def)
qed

lemma enumerate_zip:
  "map (\<lambda>k. (f k, gs ! k)) [0..<length gs] = zip (map f [0..<length gs]) gs"
  by (rule nth_equalityI) auto

lemma safe_groups:
  assumes "list_all spec_safe (spec_tokens ranges)"
  shows "map (pageIndicesOf view) (partsOf ranges) = map Some (map (spec_token view) (spec_tokens ranges))"
  using assms by (simp add: partsOf_tokens list_all_iff pageIndicesOf_spec)

lemma ranges_closed:
  assumes "ranges \<noteq> []" and "list_all spec_safe (spec_tokens ranges)"
    and "spec_viewInDocument pageCount (availableIndicesOf pageCount sourceIndices)"
  shows "splitPdf pageCount Ranges (Some ranges) selectedPages sourceIndices =
     Some (Inr (Zip (spec_files (map (spec_token (availableIndicesOf pageCount sourceIndices))
                                   (spec_tokens ranges)))))"
proof -
  let ?a = "availableIndicesOf pageCount sourceIndices"
  let ?gs = "map (spec_token ?a) (spec_tokens ranges)"
  have len: "length (partsOf ranges) = length ?gs"
    by (simp add: partsOf_tokens)
  have "rangesLoop pageCount ?a (partsOf ranges) 0 [] =
      Some (Inr ([] @ filter (\<lambda>file. snd file \<noteq> []) (map (\<lambda>k. (int k + 1, ?gs ! k)) [0..<length (partsOf ranges)])))"
    by (rule rangesLoop_closed [OF assms(3) safe_groups [OF assms(2)]])
  also have "map (\<lambda>k. (int k + 1, ?gs ! k)) [0..<length (partsOf ranges)] =
      zip (map (\<lambda>k. int k + 1) [0..<length ?gs]) ?gs"
    unfolding len by (rule enumerate_zip)
  finally have "rangesLoop pageCount ?a (partsOf ranges) 0 [] = Some (Inr (spec_files ?gs))"
    by (simp add: spec_files_def)
  with assms(1) show ?thesis
    by (simp add: splitPdf_def Let_def archive_def)
qed

lemma token_1_3: "pageIndicesOf [v0, v1, v2, v3, v4] ''1-3'' = Some [v0, v1, v2]"
  by (simp add: pageIndicesOf_def parse_evals rangeLoop_closed upto_rec1)

lemma token_8: "pageIndicesOf [v0, v1, v2, v3, v4] ''8'' = Some []"
  by (simp add: pageIndicesOf_def parse_evals)

lemma token_5: "pageIndicesOf [v0, v1, v2, v3, v4] ''5'' = Some [v4]"
  by (simp add: pageIndicesOf_def parse_evals)

lemma parts_example: "partsOf ''1-3, 5'' = [''1-3'', ''5'']"
  by (simp add: partsOf_def trim_def isWhiteSpace_def)

lemma ranges_example:
  assumes "spec_viewInDocument pageCount [v0, v1, v2, v3, v4]"
  shows "splitPdf pageCount Ranges (Some ''1-3, 5'') selectedPages (Some [v0, v1, v2, v3, v4]) =
     Some (Inr (Zip [(1, [v0, v1, v2]), (2, [v4])]))"
proof -
  have g: "map (pageIndicesOf [v0, v1, v2, v3, v4]) [''1-3'', ''5''] = map Some [[v0, v1, v2], [v4]]"
    by (simp add: token_1_3 token_5)
  have "rangesLoop pageCount [v0, v1, v2, v3, v4] [''1-3'', ''5''] 0 [] =
      Some (Inr ([] @ filter (\<lambda>file. snd file \<noteq> [])
        (map (\<lambda>k. (int k + 1, [[v0, v1, v2], [v4]] ! k)) [0..<length [''1-3'', ''5'']])))"
    by (rule rangesLoop_closed [OF assms g])
  then have "rangesLoop pageCount [v0, v1, v2, v3, v4] [''1-3'', ''5''] 0 [] =
      Some (Inr [(1, [v0, v1, v2]), (2, [v4])])"
    by simp
  then show ?thesis
    by (simp add: splitPdf_def Let_def archive_def availableIndicesOf_def parts_example)
qed

theorem plan_within_view_witness:
  "splitPdf 20 Ranges (Some ''1-3, 5'') None (Some [10, 11, 12, 13, 14]) =
     Some (Inr (Zip [(1, [10, 11, 12]), (2, [14])]))
   \<and> [14] \<in> set (groups (Zip [(1, [10, 11, 12]), (2, [14])]))
   \<and> set [14] \<subseteq> set (availableIndicesOf 20 (Some [10, 11, 12, 13, 14]))"
proof -
  have h: "spec_viewInDocument 20 [10, 11, 12, 13, 14]"
    by (simp add: spec_viewInDocument_def)
  have r: "splitPdf 20 Ranges (Some ''1-3, 5'') None (Some [10, 11, 12, 13, 14]) =
     Some (Inr (Zip [(1, [10, 11, 12]), (2, [14])]))"
    by (rule ranges_example [OF h])
  have m: "[14] \<in> set (groups (Zip [(1, [10, 11, 12]), (2, [14::int])]))"
    by simp
  from plan_within_view [OF r m] r m show ?thesis by simp
qed

text \<open>
  Against claim C1 as it stands: the token \<open>1-9007199254740992\<close> on a document of five
  pages resolves to no group, the five pages or any other. The counter of the loop reaches
  \<open>2 ^ 53\<close>, stays there, and the call never returns.
\<close>

theorem huge_range_never_returns:
  "splitPdf 5 Ranges (Some ''1-9007199254740992'') None None = None"
proof -
  have parts: "partsOf ''1-9007199254740992'' = [''1-9007199254740992'']"
    by (simp add: partsOf_def trim_def isWhiteSpace_def)
  have start: "parseInt ''1'' = Some 1" and bound: "parseInt ''9007199254740992'' = Some 9007199254740992"
    by (simp_all add: parse_evals)
  have loop: "rangeLoop (defaultIndices 5) 1 9007199254740992 [] = None"
    by (rule rangeLoop_never_returns) simp_all
  have "pageIndicesOf (defaultIndices 5) ''1-9007199254740992'' = None"
    by (simp add: pageIndicesOf_def start bound loop)
  then have "rangesLoop 5 (defaultIndices 5) [''1-9007199254740992''] 0 [] = None"
    by (intro rangesLoop_hangs) simp_all
  then show ?thesis
    by (simp add: splitPdf_def Let_def parts availableIndicesOf_def)
qed

text \<open>
  Claim C1, amended. In the mode \<open>ranges\<close> the string is split at the commas and each
  token is trimmed. For a token whose integers are of magnitude below \<open>2 ^ 53\<close> the page
  indices the loop computes are those of the specification: the two integers around the
  dash, in the order written, give the positions from the first to the second, none when the
  first is the larger, and a token without a dash gives its one position; a position counts
  from 1 into the view and contributes only inside it. The tokens are resolved one by one in
  their order, a group for each token; on a view whose elements are pages of the document
  the archive gets a file for each group with at least one page, numbered by the place of
  the token. On a view of five pages, \<open>1-3\<close> gives the first three, \<open>8\<close> gives nothing,
  and \<open>1-3, 5\<close> gives the first three and then the fifth.
\<close>

theorem ranges_mode_tokens:
  "(spec_safe token \<longrightarrow> pageIndicesOf view token = Some (spec_token view token))
   \<and> partsOf ranges = spec_tokens ranges
   \<and> (list_all spec_safe (spec_tokens ranges) \<longrightarrow>
        map (pageIndicesOf view) (partsOf ranges) =
          map Some (map (spec_token view) (spec_tokens ranges)))
   \<and> (ranges \<noteq> [] \<and> list_all spec_safe (spec_tokens ranges)
        \<and> spec_viewInDocument pageCount (availableIndicesOf pageCount sourceIndices) \<longrightarrow>
        splitPdf pageCount Ranges (Some ranges) selectedPages sourceIndices =
          Some (Inr (Zip (spec_files (map (spec_token (availableIndicesOf pageCount sourceIndices))
                                        (spec_tokens ranges))))))
   \<and> (spec_safe token \<and> CHR ''-'' \<in> set token \<and> mathInt (spec_startText token) = Some start
        \<and> mathInt (spec_endText token) = Some endn \<and> endn < start \<longrightarrow>
        pageIndicesOf view token = Some [])
   \<and> map (pageIndicesOf [v0, v1, v2, v3, v4]) (partsOf ''1-3, 5'') = [Some [v0, v1, v2], Some [v4]]
   \<and> pageIndicesOf [v0, v1, v2, v3, v4] ''1-3'' = Some [v0, v1, v2]
   \<and> pageIndicesOf [v0, v1, v2, v3, v4] ''8'' = Some []
   \<and> (spec_viewInDocument pageCount [v0, v1, v2, v3, v4] \<longrightarrow>
        splitPdf pageCount Ranges (Some ''1-3, 5'') selectedPages (Some [v0, v1, v2, v3, v4]) =
          Some (Inr (Zip [(1, [v0, v1, v2]), (2, [v4])])))"
proof -
  have a: "spec_safe token \<longrightarrow> pageIndicesOf view token = Some (spec_token view token)"
    by (simp add: pageIndicesOf_spec)
  have b: "list_all spec_safe (spec_tokens ranges) \<longrightarrow>
        map (pageIndicesOf view) (partsOf ranges) =
          map Some (map (spec_token view) (spec_tokens ranges))"
    by (rule impI) (rule safe_groups)
  have c: "ranges \<noteq> [] \<and> list_all spec_safe (spec_tokens ranges)
        \<and> spec_viewInDocument pageCount (availableIndicesOf pageCount sourceIndices) \<longrightarrow>
        splitPdf pageCount Ranges (Some ranges) selectedPages sourceIndices =
          Some (Inr (Zip (spec_files (map (spec_token (availableIndicesOf pageCount sourceIndices))
                                        (spec_tokens ranges)))))"
    using ranges_closed [of ranges pageCount sourceIndices selectedPages] by blast
  have d: "spec_safe token \<and> CHR ''-'' \<in> set token \<and> mathInt (spec_startText token) = Some start
        \<and> mathInt (spec_endText token) = Some endn \<and> endn < start \<longrightarrow>
        pageIndicesOf view token = Some []"
    by (simp add: pageIndicesOf_spec spec_token_def)
  have e: "map (pageIndicesOf [v0, v1, v2, v3, v4]) (partsOf ''1-3, 5'') = [Some [v0, v1, v2], Some [v4]]"
    by (simp add: parts_example token_1_3 token_5)
  have f: "spec_viewInDocument pageCount [v0, v1, v2, v3, v4] \<longrightarrow>
        splitPdf pageCount Ranges (Some ''1-3, 5'') selectedPages (Some [v0, v1, v2, v3, v4]) =
          Some (Inr (Zip [(1, [v0, v1, v2]), (2, [v4])]))"
    by (rule impI) (rule ranges_example)
  show ?thesis
    by (intro conjI; (rule a partsOf_tokens b c d e token_1_3 token_8 f))
qed

theorem ranges_mode_tokens_witness:
  "''1-3, 5'' \<noteq> [] \<and> list_all spec_safe (spec_tokens ''1-3, 5'')
   \<and> spec_viewInDocument 20 (availableIndicesOf 20 (Some [10, 11, 12, 13, 14]))
   \<and> splitPdf 20 Ranges (Some ''1-3, 5'') None (Some [10, 11, 12, 13, 14]) =
       Some (Inr (Zip [(1, [10, 11, 12]), (2, [14])]))
   \<and> spec_safe ''3-1'' \<and> CHR ''-'' \<in> set ''3-1'' \<and> mathInt (spec_startText ''3-1'') = Some 3
   \<and> mathInt (spec_endText ''3-1'') = Some 1 \<and> (1::int) < 3
   \<and> pageIndicesOf [10, 11, 12, 13, 14] ''3-1'' = Some []
   \<and> pageIndicesOf [10, 11, 12, 13, 14] ''3-1'' = Some (spec_token [10, 11, 12, 13, 14] ''3-1'')
   \<and> pageIndicesOf [10, 11, 12, 13, 14] ''8'' = Some []"
proof -
  note t = ranges_mode_tokens [of "''3-1''" "[10, 11, 12, 13, 14]" "''1-3, 5''" 20
      "Some [10, 11, 12, 13, 14]" None 3 1 10 11 12 13 14]
  have tokens: "spec_tokens ''1-3, 5'' = [''1-3'', ''5'']"
    using parts_example by (simp add: partsOf_tokens)
  have h1: "''1-3, 5'' \<noteq> [] \<and> list_all spec_safe (spec_tokens ''1-3, 5'')
      \<and> spec_viewInDocument 20 (availableIndicesOf 20 (Some [10, 11, 12, 13, 14]))"
    unfolding tokens
    by (simp add: spec_safe_def spec_below_def spec_startText_def spec_endText_def mathInt_def
        isWhiteSpace_def isRadixDigit_def digitValue_def digitsValue_def
        spec_viewInDocument_def availableIndicesOf_def)
  have h2: "spec_safe ''3-1'' \<and> CHR ''-'' \<in> set ''3-1'' \<and> mathInt (spec_startText ''3-1'') = Some 3
      \<and> mathInt (spec_endText ''3-1'') = Some 1 \<and> (1::int) < 3"
    by (simp add: spec_safe_def spec_below_def spec_startText_def spec_endText_def mathInt_def
        isWhiteSpace_def isRadixDigit_def digitValue_def digitsValue_def)
  have files: "spec_files [spec_token [10, 11, 12, 13, 14] ''1-3'', spec_token [10, 11, 12, 13, 14] ''5''] =
      [(1, [10, 11, 12]), (2, [14])]"
    by (simp add: spec_files_def spec_token_def spec_position_def spec_startText_def spec_endText_def
        mathInt_def isWhiteSpace_def isRadixDigit_def digitValue_def digitsValue_def upto_rec1 upt_rec)
  from t h1 have "splitPdf 20 Ranges (Some ''1-3, 5'') None (Some [10, 11, 12, 13, 14]) =
      Some (Inr (Zip (spec_files (map (spec_token (availableIndicesOf 20 (Some [10, 11, 12, 13, 14])))
                                        (spec_tokens ''1-3, 5'')))))"
    by blast
  then have r1: "splitPdf 20 Ranges (Some ''1-3, 5'') None (Some [10, 11, 12, 13, 14]) =
       Some (Inr (Zip [(1, [10, 11, 12]), (2, [14])]))"
    by (simp add: tokens availableIndicesOf_def files)
  from t h2 have r2: "pageIndicesOf [10, 11, 12, 13, 14] ''3-1'' = Some []"
    by blast
  from t h2 have r3: "pageIndicesOf [10, 11, 12, 13, 14] ''3-1'' = Some (spec_token [10, 11, 12, 13, 14] ''3-1'')"
    by blast
  from t have r4: "pageIndicesOf [10, 11, 12, 13, 14] ''8'' = Some []"
    by blast
  show ?thesis
    by (intro conjI; (rule h1 [THEN conjunct1] h1 [THEN conjunct2, THEN conjunct1]
        h1 [THEN conjunct2, THEN conjunct2] r1 r2 r3 r4
        h2 [THEN conjunct1] h2 [THEN conjunct2, THEN conjunct1]
        h2 [THEN conjunct2, THEN conjunct2, THEN conjunct1]
        h2 [THEN conjunct2, THEN conjunct2, THEN conjunct2, THEN conjunct1]
        h2 [THEN conjunct2, THEN conjunct2, THEN conjunct2, THEN conjunct2]))
qed

lemma split_Inl:
  assumes "splitPdf pageCount mode ranges selectedPages sourceIndices = Some (Inl err)"
  shows "err = InvalidSplitMode
     \<or> err = CopyPagesTypeError \<and> \<not> spec_viewInDocument pageCount (availableIndicesOf pageCount sourceIndices)"
proof -
  let ?a = "availableIndicesOf pageCount sourceIndices"
  let ?copy = "err = CopyPagesTypeError \<and> \<not> spec_viewInDocument pageCount ?a"
  have each: "eachLoop pageCount ?a 0 [] = Inl err \<Longrightarrow> ?copy"
    using eachLoop_Inl [of pageCount ?a 0 "[]" err] eachLoop_closed [of pageCount ?a 0 "[]"] by auto
  have selected: "\<And>sel. selectedLoop pageCount ?a sel [] = Inl err \<Longrightarrow> ?copy"
    using selectedLoop_Inl [of pageCount ?a _ "[]" err] selectedLoop_closed [of pageCount ?a _ "[]"] by auto
  have single: "\<And>xs. set xs \<subseteq> set ?a \<Longrightarrow> singleDocument pageCount xs = Inl err \<Longrightarrow> ?copy"
    using singleDocument_Inl [of pageCount _ err] singleDocument_in_document [of pageCount ?a] by auto
  show ?thesis
  proof (cases mode)
    case Each
    with assms have "archive (eachLoop pageCount ?a 0 []) = Inl err"
      by (simp add: splitPdf_def Let_def)
    then show ?thesis using archive_Inl each by blast
  next
    case Ranges
    show ?thesis
    proof (cases "ranges \<noteq> None \<and> ranges \<noteq> Some []")
      case True
      with assms Ranges obtain parts where
        "map_option archive (rangesLoop pageCount ?a parts 0 []) = Some (Inl err)"
        by (auto simp: splitPdf_def Let_def)
      then obtain r where "rangesLoop pageCount ?a parts 0 [] = Some r" and "archive r = Inl err"
        by auto
      with archive_Inl have "rangesLoop pageCount ?a parts 0 [] = Some (Inl err)" by blast
      from rangesLoop_Inl [OF this] show ?thesis by simp
    next
      case False
      with assms Ranges show ?thesis by (auto simp: splitPdf_def Let_def)
    qed
  next
    case Selected
    show ?thesis
    proof (cases "selectedPages \<noteq> None \<and> selectedPages \<noteq> Some []")
      case True
      with assms Selected obtain sel where "archive (selectedLoop pageCount ?a sel []) = Inl err"
        by (auto simp: splitPdf_def Let_def)
      then show ?thesis using archive_Inl selected by blast
    next
      case False
      with assms Selected show ?thesis by (auto simp: splitPdf_def Let_def)
    qed
  next
    case Delete
    show ?thesis
    proof (cases "selectedPages \<noteq> None")
      case True
      with assms Delete obtain sel where "singleDocument pageCount (deleteLoop ?a sel 0 []) = Inl err"
        by (auto simp: splitPdf_def Let_def)
      with single [OF deleteLoop_subset] show ?thesis by blast
    next
      case False
      with assms Delete show ?thesis by (auto simp: splitPdf_def Let_def)
    qed
  next
    case Extract
    show ?thesis
    proof (cases "selectedPages \<noteq> None \<and> selectedPages \<noteq> Some []")
      case True
      with assms Extract obtain sel where "singleDocument pageCount (indicesToExtract ?a sel) = Inl err"
        by (auto simp: splitPdf_def Let_def)
      with single [OF indicesToExtract_subset] show ?thesis by blast
    next
      case False
      with assms Extract show ?thesis by (auto simp: splitPdf_def Let_def)
    qed
  qed
qed

lemma raises_iff:
  "(splitPdf pageCount mode ranges selectedPages sourceIndices = Some (Inl InvalidSplitMode)) =
     (mode = Ranges \<and> (ranges = None \<or> ranges = Some [])
      \<or> mode = Selected \<and> (selectedPages = None \<or> selectedPages = Some [])
      \<or> mode = Delete \<and> selectedPages = None
      \<or> mode = Extract \<and> (selectedPages = None \<or> selectedPages = Some []))"
proof
  assume r: "splitPdf pageCount mode ranges selectedPages sourceIndices = Some (Inl InvalidSplitMode)"
  show "mode = Ranges \<and> (ranges = None \<or> ranges = Some [])
      \<or> mode = Selected \<and> (selectedPages = None \<or> selectedPages = Some [])
      \<or> mode = Delete \<and> selectedPages = None
      \<or> mode = Extract \<and> (selectedPages = None \<or> selectedPages = Some [])"
  proof (rule ccontr)
    assume n: "\<not> (mode = Ranges \<and> (ranges = None \<or> ranges = Some [])
      \<or> mode = Selected \<and> (selectedPages = None \<or> selectedPages = Some [])
      \<or> mode = Delete \<and> selectedPages = None
      \<or> mode = Extract \<and> (selectedPages = None \<or> selectedPages = Some []))"
    let ?a = "availableIndicesOf pageCount sourceIndices"
    show False
    proof (cases mode)
      case Each
      with r have "archive (eachLoop pageCount ?a 0 []) = Inl InvalidSplitMode"
        by (simp add: splitPdf_def Let_def)
      with archive_Inl eachLoop_Inl show False by blast
    next
      case Ranges
      with r n obtain parts where
        "map_option archive (rangesLoop pageCount ?a parts 0 []) = Some (Inl InvalidSplitMode)"
        by (auto simp: splitPdf_def Let_def)
      then obtain x where "rangesLoop pageCount ?a parts 0 [] = Some x" and "archive x = Inl InvalidSplitMode"
        by auto
      with archive_Inl have "rangesLoop pageCount ?a parts 0 [] = Some (Inl InvalidSplitMode)" by blast
      from rangesLoop_Inl [OF this] show False by simp
    next
      case Selected
      with r n obtain sel where "archive (selectedLoop pageCount ?a sel []) = Inl InvalidSplitMode"
        by (auto simp: splitPdf_def Let_def)
      with archive_Inl selectedLoop_Inl show False by blast
    next
      case Delete
      with r n obtain xs where "singleDocument pageCount xs = Inl InvalidSplitMode"
        by (auto simp: splitPdf_def Let_def)
      with singleDocument_Inl show False by blast
    next
      case Extract
      with r n obtain xs where "singleDocument pageCount xs = Inl InvalidSplitMode"
        by (auto simp: splitPdf_def Let_def)
      with singleDocument_Inl show False by blast
    qed
  qed
next
  assume "mode = Ranges \<and> (ranges = None \<or> ranges = Some [])
      \<or> mode = Selected \<and> (selectedPages = None \<or> selectedPages = Some [])
      \<or> mode = Delete \<and> selectedPages = None
      \<or> mode = Extract \<and> (selectedPages = None \<or> selectedPages = Some [])"
  then show "splitPdf pageCount mode ranges selectedPages sourceIndices = Some (Inl InvalidSplitMode)"
    by (auto simp: splitPdf_def Let_def)
qed

lemma only_unparseable:
  assumes "r \<noteq> []" and "list_all spec_unparseable (partsOf r)"
  shows "splitPdf pageCount Ranges (Some r) selectedPages sourceIndices = Some (Inr (Zip []))"
proof -
  from assms(2) have "\<forall>part \<in> set (partsOf r). pageIndicesOf (availableIndicesOf pageCount sourceIndices) part = Some []"
    by (simp add: list_all_iff unparseable_empty)
  from rangesLoop_all_empty [OF this, of pageCount 0 "[]"] assms(1) show ?thesis
    by (simp add: splitPdf_def Let_def archive_def)
qed

lemma outside_view:
  "CHR ''-'' \<notin> set token \<Longrightarrow> parseInt token = Some p \<Longrightarrow> p < 1 \<or> int (length view) < p \<Longrightarrow>
   pageIndicesOf view token = Some []"
  by (auto simp: pageIndicesOf_def)

section \<open>When splitting fails\<close>

text \<open>
  Against claim C3 as it stands: with an empty range string the mode \<open>ranges\<close> raises,
  and so does the mode \<open>selected\<close> with an empty list of positions.
\<close>

theorem empty_input_raises:
  "splitPdf 5 Ranges (Some []) None None = Some (Inl InvalidSplitMode)
   \<and> splitPdf 5 Selected None (Some []) None = Some (Inl InvalidSplitMode)"
  by (simp add: splitPdf_def Let_def)

text \<open>
  Claim C3, amended. \<open>splitPdf\<close> raises its error of an invalid mode exactly when the
  range string is absent or empty in the mode \<open>ranges\<close>, when the list of positions is
  absent or empty in the modes \<open>selected\<close> and \<open>extract\<close>, and when it is absent in the
  mode \<open>delete\<close>. It raises nothing else but the error of \<open>copyPages\<close>, and that only on
  a view with an element that is no page of the document. An unparseable token and a
  position outside the view contribute nothing, and a range string that is not empty and has
  only unparseable tokens gives an archive with no file.
\<close>

theorem split_failure_paths:
  "(splitPdf pageCount mode ranges selectedPages sourceIndices = Some (Inl InvalidSplitMode)) =
     (mode = Ranges \<and> (ranges = None \<or> ranges = Some [])
      \<or> mode = Selected \<and> (selectedPages = None \<or> selectedPages = Some [])
      \<or> mode = Delete \<and> selectedPages = None
      \<or> mode = Extract \<and> (selectedPages = None \<or> selectedPages = Some []))
   \<and> (splitPdf pageCount mode ranges selectedPages sourceIndices = Some (Inl err) \<longrightarrow>
        err = InvalidSplitMode
        \<or> err = CopyPagesTypeError
          \<and> \<not> spec_viewInDocument pageCount (availableIndicesOf pageCount sourceIndices))
   \<and> (spec_unparseable token \<longrightarrow> pageIndicesOf view token = Some [])
   \<and> (CHR ''-'' \<notin> set token \<and> parseInt token = Some p \<and> (p < 1 \<or> int (length view) < p) \<longrightarrow>
        pageIndicesOf view token = Some [])
   \<and> (r \<noteq> [] \<and> list_all spec_unparseable (partsOf r) \<longrightarrow>
        splitPdf pageCount Ranges (Some r) selectedPages sourceIndices = Some (Inr (Zip [])))"
proof -
  have b: "splitPdf pageCount mode ranges selectedPages sourceIndices = Some (Inl err) \<longrightarrow>
        err = InvalidSplitMode
        \<or> err = CopyPagesTypeError
          \<and> \<not> spec_viewInDocument pageCount (availableIndicesOf pageCount sourceIndices)"
    by (rule impI) (rule split_Inl)
  have c: "spec_unparseable token \<longrightarrow> pageIndicesOf view token = Some []"
    by (rule impI) (rule unparseable_empty)
  have d: "CHR ''-'' \<notin> set token \<and> parseInt token = Some p \<and> (p < 1 \<or> int (length view) < p) \<longrightarrow>
        pageIndicesOf view token = Some []"
    using outside_view [of token p view] by blast
  have e: "r \<noteq> [] \<and> list_all spec_unparseable (partsOf r) \<longrightarrow>
        splitPdf pageCount Ranges (Some r) selectedPages sourceIndices = Some (Inr (Zip []))"
    using only_unparseable [of r pageCount selectedPages sourceIndices] by blast
  show ?thesis
    by (intro conjI; (rule raises_iff b c d e))
qed

theorem split_failure_paths_witness:
  "splitPdf 5 Ranges (Some ''abc, -2, 2-'') None (Some [0, 1, 2, 3, 4]) = Some (Inr (Zip []))
   \<and> ''abc, -2, 2-'' \<noteq> [] \<and> list_all spec_unparseable (partsOf ''abc, -2, 2-'')
   \<and> spec_unparseable ''abc'' \<and> pageIndicesOf [0, 1, 2, 3, 4] ''abc'' = Some []
   \<and> CHR ''-'' \<notin> set ''8'' \<and> parseInt ''8'' = Some 8 \<and> int (length [0, 1, 2, 3, 4 :: int]) < 8
   \<and> pageIndicesOf [0, 1, 2, 3, 4] ''8'' = Some []
   \<and> splitPdf 5 Extract None (Some []) None = Some (Inl InvalidSplitMode)
   \<and> splitPdf 5 Each None None (Some [10, 11, 12, 13, 14]) = Some (Inl CopyPagesTypeError)
   \<and> \<not> spec_viewInDocument 5 (availableIndicesOf 5 (Some [10, 11, 12, 13, 14]))"
proof -
  note t = split_failure_paths [of 5 Ranges "Some ''abc, -2, 2-''" None "Some [0, 1, 2, 3, 4]" InvalidSplitMode
      "''abc''" "[0, 1, 2, 3, 4]" 8 "''abc, -2, 2-''"]
  note u = split_failure_paths [of 5 Extract None "Some []" None InvalidSplitMode "''8''" "[0, 1, 2, 3, 4]" 8
      "''abc, -2, 2-''"]
  note v = split_failure_paths [of 5 Each None None "Some [10, 11, 12, 13, 14]" CopyPagesTypeError "''8''"
      "[0, 1, 2, 3, 4]" 8 "''abc, -2, 2-''"]
  have parts: "partsOf ''abc, -2, 2-'' = [''abc'', ''-2'', ''2-'']"
    by (simp add: partsOf_def trim_def isWhiteSpace_def)
  have bad: "''abc, -2, 2-'' \<noteq> [] \<and> list_all spec_unparseable (partsOf ''abc, -2, 2-'')"
    unfolding parts
    by (simp add: spec_unparseable_def spec_startText_def spec_endText_def mathInt_def
        isWhiteSpace_def isRadixDigit_def digitValue_def digitsValue_def)
  have abc: "spec_unparseable ''abc''"
    by (simp add: spec_unparseable_def mathInt_def isWhiteSpace_def isRadixDigit_def digitValue_def)
  have eight: "CHR ''-'' \<notin> set ''8'' \<and> parseInt ''8'' = Some 8 \<and> int (length [0, 1, 2, 3, 4 :: int]) < 8"
    by (simp add: parse_evals)
  have thrown: "splitPdf 5 Each None None (Some [10, 11, 12, 13, 14]) = Some (Inl CopyPagesTypeError)"
    by (simp add: splitPdf_def Let_def availableIndicesOf_def archive_def eachLoop.simps copyPages_def)
  from t bad have r1: "splitPdf 5 Ranges (Some ''abc, -2, 2-'') None (Some [0, 1, 2, 3, 4]) = Some (Inr (Zip []))"
    by blast
  from t abc have r2: "pageIndicesOf [0, 1, 2, 3, 4] ''abc'' = Some []"
    by blast
  from u eight have r3: "pageIndicesOf [0, 1, 2, 3, 4] ''8'' = Some []"
    by blast
  from u have r4: "splitPdf 5 Extract None (Some []) None = Some (Inl InvalidSplitMode)"
    by blast
  from v thrown have r5: "\<not> spec_viewInDocument 5 (availableIndicesOf 5 (Some [10, 11, 12, 13, 14]))"
    by blast
  show ?thesis
    by (intro conjI; (rule r1 r2 r3 r4 r5 thrown abc bad [THEN conjunct1] bad [THEN conjunct2]
        eight [THEN conjunct1] eight [THEN conjunct2, THEN conjunct1]
        eight [THEN conjunct2, THEN conjunct2]))
qed

section \<open>Placing the text\<close>

lemma cur_plain: "currentText ''Draft'' idx n = ''Draft''"
  by (simp add: currentText_def Let_def)

text \<open>
  Claim C2. The origin of the text is \<open>(centerX - rvX, centerY - rvY)\<close>, where
  \<open>centerX = w * ax\<close>, \<open>centerY = h * (1 - ay)\<close> and \<open>(rvX, rvY)\<close> is the vector
  \<open>(tw / 2, th / 2)\<close> turned counterclockwise by the angle, taken in radians. For a page of
  600 by 800, the anchor in the middle, no rotation and a text of 100 by 20 the origin is
  \<open>(250, 390)\<close>, and that is where \<open>addWatermark\<close> draws. The numbers are reals.
\<close>

theorem watermark_origin:
  "drawOrigin w h ax ay rot tw th =
     (w * ax - (tw / 2 * cos (rot * pi / 180) - th / 2 * sin (rot * pi / 180)),
      h * (1 - ay) - (tw / 2 * sin (rot * pi / 180) + th / 2 * cos (rot * pi / 180)))
   \<and> drawOrigin 600 800 0.5 0.5 0 100 20 = (250, 390)
   \<and> addWatermark [(600, 800)] \<lparr>helvetica = fixedFont 100 20, notoSerif = None\<rparr>
        (textOptions ''Draft'' (Some 40) (Some 0.3) 0.5 0.5 0) =
      Inr [DrawText ''Draft'' 250 390 40 0.3 0]"
  by (simp add: drawOrigin_def Let_def addWatermark_def textOptions_def fixedFont_def nullish_def
      orDefault_def hasNonLatin_def drawTextOn_def cur_plain)

theorem watermark_origin_witness:
  "drawOrigin 600 800 0.5 0.5 90 100 20 = (310, 350)"
  using watermark_origin [of 600 800 "0.5" "0.5" 90 100 20]
  by simp

text \<open>
  Claim C4. For every anchor and every angle, those of the claim among them, the visual
  centre of the text drawn at the origin \<open>drawOrigin\<close> returns is the anchor point
  \<open>(w * ax, h * (1 - ay))\<close>; and a text of no extent is drawn at the anchor point itself,
  whatever the angle. The numbers are reals, so the equality is exact.
\<close>

theorem center_round_trip:
  "spec_visualCenter (drawOrigin w h ax ay rot tw th) rot tw th = (w * ax, h * (1 - ay))
   \<and> drawOrigin w h ax ay rot 0 0 = (w * ax, h * (1 - ay))"
  by (simp add: spec_visualCenter_def spec_rotatedHalfExtent_def drawOrigin_def Let_def)

theorem center_round_trip_witness:
  "spec_visualCenter (drawOrigin 600 800 0.25 0.75 90 100 20) 90 100 20 = (150, 200)
   \<and> drawOrigin 600 800 0.25 0.75 90 0 0 = (150, 200)"
  using center_round_trip [of 600 800 "0.25" "0.75" 90 100 20]
  by simp

section \<open>Defaults of the drawing options\<close>

lemma opacity_zero_absent:
  "addWatermark pages fs (options\<lparr>o_opacity := Some 0\<rparr>) = addWatermark pages fs (options\<lparr>o_opacity := None\<rparr>)"
  by (simp add: addWatermark_def orDefault_def Let_def split: option.splits)

lemma size_zero_absent:
  "addWatermark pages fs (options\<lparr>o_size := Some 0\<rparr>) = addWatermark pages fs (options\<lparr>o_size := None\<rparr>)"
  by (simp add: addWatermark_def orDefault_def Let_def split: option.splits)

lemma file_branch_default:
  "o_file options = Some f \<Longrightarrow>
   addWatermark pages fs (options\<lparr>o_opacity := Some 0\<rparr>) =
     Inr (map (\<lambda>(width, height).
            DrawPage f (width * nullish (o_x options) 0.5 - width / 2)
              (height * (1 - nullish (o_y options) 0.5) - height / 2) width height 0.5
              (nullish (o_rotation options)
                 (if (case o_text options of None \<Rightarrow> False | Some t \<Rightarrow> t \<noteq> []) then 45 else 0)))
          pages)"
  by (simp add: addWatermark_def orDefault_def Let_def)

lemma text_branch_default:
  "o_file options = None \<Longrightarrow> o_text options = Some t \<Longrightarrow> t \<noteq> [] \<Longrightarrow> \<not> hasNonLatin t \<Longrightarrow>
   addWatermark pages fs (options\<lparr>o_size := Some 0, o_opacity := Some 0\<rparr>) =
     Inr (map (drawTextOn (helvetica fs) t 50 0.5 (nullish (o_x options) 0.5)
                 (nullish (o_y options) 0.5) (nullish (o_rotation options) 45) (length pages))
            (enumerate 0 pages))"
  by (simp add: addWatermark_def orDefault_def Let_def)

text \<open>
  Claim C10. An opacity of 0 and a size of 0 are treated as absent: \<open>addWatermark\<close>
  draws the same with \<open>0\<close> as with no value, the embedded page with the opacity 0.5, the
  text with the size 50 and the opacity 0.5.
\<close>

theorem falsy_options_default:
  "addWatermark pages fs (options\<lparr>o_opacity := Some 0\<rparr>) = addWatermark pages fs (options\<lparr>o_opacity := None\<rparr>)
   \<and> addWatermark pages fs (options\<lparr>o_size := Some 0\<rparr>) = addWatermark pages fs (options\<lparr>o_size := None\<rparr>)
   \<and> (o_file options = Some f \<longrightarrow>
        addWatermark pages fs (options\<lparr>o_opacity := Some 0\<rparr>) =
          Inr (map (\<lambda>(width, height).
                 DrawPage f (width * nullish (o_x options) 0.5 - width / 2)
                   (height * (1 - nullish (o_y options) 0.5) - height / 2) width height 0.5
                   (nullish (o_rotation options)
                      (if (case o_text options of None \<Rightarrow> False | Some t \<Rightarrow> t \<noteq> []) then 45 else 0)))
               pages))
   \<and> (o_file options = None \<and> o_text options = Some t \<and> t \<noteq> [] \<and> \<not> hasNonLatin t \<longrightarrow>
        addWatermark pages fs (options\<lparr>o_size := Some 0, o_opacity := Some 0\<rparr>) =
          Inr (map (drawTextOn (helvetica fs) t 50 0.5 (nullish (o_x options) 0.5)
                      (nullish (o_y options) 0.5) (nullish (o_rotation options) 45) (length pages))
                 (enumerate 0 pages)))"
  using opacity_zero_absent [of pages fs options] size_zero_absent [of pages fs options]
    file_branch_default [of options f pages fs] text_branch_default [of options t pages fs]
  by blast

theorem falsy_options_default_witness:
  "o_file (textOptions ''Draft'' (Some 40) (Some 0.3) 0.5 0.5 0) = None
   \<and> o_text (textOptions ''Draft'' (Some 40) (Some 0.3) 0.5 0.5 0) = Some ''Draft''
   \<and> ''Draft'' \<noteq> [] \<and> \<not> hasNonLatin ''Draft''
   \<and> addWatermark [(600, 800)] \<lparr>helvetica = fixedFont 100 20, notoSerif = None\<rparr>
        (textOptions ''Draft'' (Some 0) (Some 0) 0.5 0.5 0) =
      Inr [DrawText ''Draft'' 250 390 50 0.5 0]
   \<and> addWatermark [(600, 800)] \<lparr>helvetica = fixedFont 100 20, notoSerif = None\<rparr>
        (textOptions ''Draft'' None None 0.5 0.5 0) =
      Inr [DrawText ''Draft'' 250 390 50 0.5 0]"
proof -
  let ?o = "textOptions ''Draft'' (Some 40) (Some 0.3) 0.5 0.5 0"
  let ?fs = "\<lparr>helvetica = fixedFont 100 20, notoSerif = None\<rparr>"
  note t = falsy_options_default [of "[(600, 800)]" ?fs ?o "()" "''Draft''"]
  have h: "o_file ?o = None \<and> o_text ?o = Some ''Draft'' \<and> ''Draft'' \<noteq> [] \<and> \<not> hasNonLatin ''Draft''"
    by (simp add: textOptions_def hasNonLatin_def)
  have upd: "?o\<lparr>o_size := Some 0, o_opacity := Some 0\<rparr> = textOptions ''Draft'' (Some 0) (Some 0) 0.5 0.5 0"
    by (simp add: textOptions_def)
  from t h have "addWatermark [(600, 800)] ?fs (?o\<lparr>o_size := Some 0, o_opacity := Some 0\<rparr>) =
      Inr (map (drawTextOn (helvetica ?fs) ''Draft'' 50 0.5 (nullish (o_x ?o) 0.5)
                      (nullish (o_y ?o) 0.5) (nullish (o_rotation ?o) 45) (length [(600::real, 800::real)]))
                 (enumerate 0 [(600, 800)]))"
    by blast
  then have zero: "addWatermark [(600, 800)] ?fs (textOptions ''Draft'' (Some 0) (Some 0) 0.5 0.5 0) =
      Inr [DrawText ''Draft'' 250 390 50 0.5 0]"
    unfolding upd
    by (simp add: textOptions_def nullish_def drawTextOn_def cur_plain fixedFont_def drawOrigin_def Let_def)
  have absent: "addWatermark [(600, 800)] ?fs (textOptions ''Draft'' None None 0.5 0.5 0) =
      Inr [DrawText ''Draft'' 250 390 50 0.5 0]"
    by (simp add: addWatermark_def textOptions_def nullish_def orDefault_def hasNonLatin_def
        drawTextOn_def cur_plain fixedFont_def drawOrigin_def Let_def)
  from h zero absent show ?thesis by blast
qed

section \<open>Placeholders in the text\<close>

lemma isDecDigit_iff: "isDecDigit c = (48 \<le> (of_char c :: nat) \<and> (of_char c :: nat) \<le> 57)"
  by (auto simp: isDecDigit_def isRadixDigit_def digitValue_def Let_def)

lemma digit_not_special:
  assumes "isDecDigit c"
  shows "\<not> isWhiteSpace c" "c \<noteq> CHR ''-''" "c \<noteq> CHR ''+''" "c \<noteq> CHR ''x''" "c \<noteq> CHR ''X''"
    "c \<noteq> CHR ''}''" "c \<noteq> CHR ''{''"
  using assms by (auto simp: isDecDigit_iff isWhiteSpace_def)

lemma widthOf_digits:
  assumes "ds \<noteq> []" and "list_all isDecDigit ds"
  shows "widthOf ds = spec_width ds"
proof -
  from assms obtain d rest where ds: "ds = d # rest" and d: "isDecDigit d" and rest: "list_all isDecDigit rest"
    by (cases ds) auto
  have all: "takeWhile (isRadixDigit 10) ds = ds"
    using assms(2) by (simp add: takeWhile_eq_all_conv list_all_iff isDecDigit_def)
  have nohex: "take 2 ds \<noteq> ''0x''" "take 2 ds \<noteq> ''0X''"
    using rest digit_not_special(4,5) by (cases rest; auto simp: ds)+
  have S: "dropWhile isWhiteSpace ds = ds"
    using digit_not_special(1) [OF d] by (simp add: ds)
  have nosign: "take 1 ds \<noteq> ''-''" "take 1 ds \<noteq> ''+''"
    using digit_not_special(2,3) [OF d] by (simp_all add: ds)
  have "mathInt ds = Some (int (digitsValue 10 ds))"
    unfolding mathInt_def Let_def S
    using nosign nohex assms(1) by (simp add: all)
  then show ?thesis by (simp add: widthOf_def parseInt_def roundInt_def spec_width_def)
qed

lemma toString_digits: "c \<in> set (toString n) \<Longrightarrow> c \<in> set ''0123456789''"
proof (induction n rule: toString.induct)
  case (1 n)
  have dc: "\<And>d. d < 10 \<Longrightarrow> digitChar d \<in> set ''0123456789''"
    unfolding digitChar_def by (rule nth_mem) simp
  show ?case
  proof (cases "n < 10")
    case True
    with 1(2) dc [of n] show ?thesis by (subst (asm) toString.simps) simp
  next
    case False
    from 1(2) have "c \<in> set (toString (n div 10)) \<or> c = digitChar (n mod 10)"
      using False by (subst (asm) toString.simps) auto
    with 1(1) [OF False] dc [of "n mod 10"] show ?thesis by auto
  qed
qed

lemma toString_no_brace: "CHR ''{'' \<notin> set (toString n)"
  using toString_digits [of "CHR ''{''" n] by auto

lemma replaceAll_chunk:
  "CHR ''{'' \<notin> set u \<Longrightarrow>
   replaceAll (CHR ''{'' # p) rep (u @ s) = u @ replaceAll (CHR ''{'' # p) rep s"
  by (induction u) auto

lemma replaceAll_match:
  "pat \<noteq> [] \<Longrightarrow> replaceAll pat rep (pat @ s) = rep @ replaceAll pat rep s"
  by (cases pat) auto

lemma replaceAll_other:
  "CHR ''{'' \<notin> set u \<Longrightarrow> take (Suc (length p)) (CHR ''{'' # u @ s) \<noteq> CHR ''{'' # p \<Longrightarrow>
   replaceAll (CHR ''{'' # p) rep (CHR ''{'' # u @ s) = CHR ''{'' # u @ replaceAll (CHR ''{'' # p) rep s"
  using replaceAll_chunk [of u p rep s] by simp

lemma pass_page:
  "list_all wellFormed ps \<Longrightarrow>
   replaceAll ''{page}'' v (concat (map sourceOf ps)) = concat (map (afterPage v) ps)"
proof (induction ps)
  case Nil
  show ?case by simp
next
  case (Cons q ps)
  then have ih: "replaceAll ''{page}'' v (concat (map sourceOf ps)) = concat (map (afterPage v) ps)"
    by simp
  show ?case
  proof (cases q)
    case (Lit u)
    with Cons.prems have "CHR ''{'' \<notin> set u" by simp
    then show ?thesis
      using replaceAll_chunk [of u "''page}''" v "concat (map sourceOf ps)"] ih Lit by simp
  next
    case PageTok
    then show ?thesis
      using replaceAll_match [of "''{page}''" v "concat (map sourceOf ps)"] ih by simp
  next
    case TotalTok
    then show ?thesis
      using replaceAll_other [of "''total}''" "''page}''" "concat (map sourceOf ps)" v] ih by simp
  next
    case (PadTok ds)
    with Cons.prems have "CHR ''{'' \<notin> set ds"
      using digit_not_special(7) by (auto simp: list_all_iff)
    then show ?thesis
      using replaceAll_other [of "''page:'' @ ds @ ''}''" "''page}''" "concat (map sourceOf ps)" v] ih PadTok
      by simp
  qed
qed

lemma pass_total:
  "list_all wellFormed ps \<Longrightarrow> CHR ''{'' \<notin> set v \<Longrightarrow>
   replaceAll ''{total}'' w (concat (map (afterPage v) ps)) = concat (map (afterTotal v w) ps)"
proof (induction ps)
  case Nil
  show ?case by simp
next
  case (Cons q ps)
  then have ih: "replaceAll ''{total}'' w (concat (map (afterPage v) ps)) = concat (map (afterTotal v w) ps)"
    by simp
  show ?case
  proof (cases q)
    case (Lit u)
    with Cons.prems have "CHR ''{'' \<notin> set u" by simp
    then show ?thesis
      using replaceAll_chunk [of u "''total}''" w "concat (map (afterPage v) ps)"] ih Lit by simp
  next
    case PageTok
    then show ?thesis
      using replaceAll_chunk [of v "''total}''" w "concat (map (afterPage v) ps)"] ih Cons.prems(2) by simp
  next
    case TotalTok
    then show ?thesis
      using replaceAll_match [of "''{total}''" w "concat (map (afterPage v) ps)"] ih by simp
  next
    case (PadTok ds)
    with Cons.prems have "CHR ''{'' \<notin> set ds"
      using digit_not_special(7) by (auto simp: list_all_iff)
    then show ?thesis
      using replaceAll_other [of "''page:'' @ ds @ ''}''" "''total}''" "concat (map (afterPage v) ps)" w] ih PadTok
      by simp
  qed
qed

lemma replacePadded_chunk:
  "CHR ''{'' \<notin> set u \<Longrightarrow> replacePadded v (u @ s) = u @ replacePadded v s"
  by (induction u) (auto simp: Let_def)

lemma replacePadded_token:
  assumes "ds \<noteq> []" and "list_all isDecDigit ds"
  shows "replacePadded v (''{page:'' @ ds @ ''}'' @ s) = padStart v (widthOf ds) @ replacePadded v s"
proof -
  have tw: "takeWhile isDecDigit (ds @ CHR ''}'' # s) = ds"
    using assms(2) by (simp add: takeWhile_append2 list_all_iff isDecDigit_iff)
  have dr: "drop (6 + length ds) (CHR ''{'' # CHR ''p'' # CHR ''a'' # CHR ''g'' # CHR ''e'' # CHR '':'' #
      ds @ CHR ''}'' # s) = CHR ''}'' # s"
    by (simp add: eval_nat_numeral)
  show ?thesis
    using assms(1) by (simp add: Let_def tw dr)
qed

lemma pass_padded:
  "list_all wellFormed ps \<Longrightarrow> CHR ''{'' \<notin> set (toString n) \<Longrightarrow> CHR ''{'' \<notin> set w \<Longrightarrow>
   replacePadded (toString n) (concat (map (afterTotal (toString n) w) ps)) =
     concat (map (\<lambda>q. case q of PadTok ds \<Rightarrow> padStart (toString n) (spec_width ds)
                        | _ \<Rightarrow> afterTotal (toString n) w q) ps)"
proof (induction ps)
  case Nil
  show ?case by simp
next
  case (Cons q ps)
  let ?rest = "concat (map (afterTotal (toString n) w) ps)"
  from Cons have ih: "replacePadded (toString n) ?rest =
     concat (map (\<lambda>q. case q of PadTok ds \<Rightarrow> padStart (toString n) (spec_width ds)
                        | _ \<Rightarrow> afterTotal (toString n) w q) ps)"
    by simp
  show ?case
  proof (cases q)
    case (Lit u)
    with Cons.prems have "CHR ''{'' \<notin> set u" by simp
    then show ?thesis
      using replacePadded_chunk [of u "toString n" ?rest] ih Lit by simp
  next
    case PageTok
    then show ?thesis
      using replacePadded_chunk [of "toString n" "toString n" ?rest] ih Cons.prems(2) by simp
  next
    case TotalTok
    then show ?thesis
      using replacePadded_chunk [of w "toString n" ?rest] ih Cons.prems(3) by simp
  next
    case (PadTok ds)
    with Cons.prems have wf: "ds \<noteq> []" "list_all isDecDigit ds" by simp_all
    then show ?thesis
      using replacePadded_token [OF wf, of "toString n" ?rest] widthOf_digits [OF wf] ih PadTok
      by simp
  qed
qed

lemma expansion_case:
  "(\<lambda>q. case q of PadTok ds \<Rightarrow> padStart (toString n) (spec_width ds)
            | _ \<Rightarrow> afterTotal (toString n) (toString m) q) = spec_expansion n m"
  by (rule ext) (simp split: piece.splits)

lemma placeholders_expand:
  assumes "list_all wellFormed ps"
  shows "currentText (concat (map sourceOf ps)) idx pagesLength =
     concat (map (spec_expansion (idx + 1) pagesLength) ps)"
  unfolding currentText_def
  by (simp only: pass_page [OF assms] pass_total [OF assms toString_no_brace]
      pass_padded [OF assms toString_no_brace toString_no_brace] expansion_case)

text \<open>
  Claim C9. The text of a page is the text of the options after three replacements, in this
  order: every \<open>{page}\<close> by the page number, counted from 1, in decimal; every \<open>{total}\<close>
  by the number of pages in decimal; every \<open>{page:NN}\<close>, \<open>NN\<close> a run of digits, by the
  page number padded with zeros to the width \<open>NN\<close>, the number the digits denote (their
  decimal value up to \<open>2 ^ 53\<close>). In a text where every opening brace
  starts a placeholder each placeholder is replaced so and the rest is unchanged. On the page
  of index 2 of 10 pages \<open>Page {page} of {total}\<close> becomes \<open>Page 3 of 10\<close> and
  \<open>{page:03}\<close> becomes \<open>003\<close>.
\<close>

theorem placeholders_replaced:
  "(list_all wellFormed ps \<longrightarrow>
      currentText (concat (map sourceOf ps)) idx pagesLength =
        concat (map (spec_expansion (idx + 1) pagesLength) ps))
   \<and> currentText text idx pagesLength =
       replacePadded (toString (idx + 1))
         (replaceAll ''{total}'' (toString pagesLength)
            (replaceAll ''{page}'' (toString (idx + 1)) text))
   \<and> (digitsValue 10 ds \<le> 2 ^ 53 \<longrightarrow> spec_width ds = digitsValue 10 ds)
   \<and> currentText ''Page {page} of {total}'' 2 10 = ''Page 3 of 10''
   \<and> currentText ''{page:03}'' 2 10 = ''003''"
proof -
  have width: "digitsValue 10 ds \<le> 2 ^ 53 \<longrightarrow> spec_width ds = digitsValue 10 ds"
    by (simp add: spec_width_def toDouble_def)
  have ex1: "currentText ''Page {page} of {total}'' 2 10 = ''Page 3 of 10''"
    by (simp add: currentText_def toString.simps digitChar_def Let_def)
  have two: "replicate 2 CHR ''0'' = ''00''"
    by (simp add: numeral_2_eq_2)
  have ex2: "currentText ''{page:03}'' 2 10 = ''003''"
    by (simp add: currentText_def toString.simps digitChar_def Let_def isDecDigit_def
        widthOf_def parse_evals padStart_def two)
  from placeholders_expand [of ps idx pagesLength] currentText_def [of "text" idx pagesLength] width ex1 ex2
  show ?thesis by blast
qed

theorem placeholders_replaced_witness:
  "list_all wellFormed [Lit ''Page '', PageTok, Lit '' of '', TotalTok, Lit '', no. '', PadTok ''03'']
   \<and> currentText ''Page {page} of {total}, no. {page:03}'' 2 10 = ''Page 3 of 10, no. 003''
   \<and> digitsValue 10 ''03'' \<le> 2 ^ 53 \<and> spec_width ''03'' = 3"
proof -
  let ?ps = "[Lit ''Page '', PageTok, Lit '' of '', TotalTok, Lit '', no. '', PadTok ''03'']"
  have wf: "list_all wellFormed ?ps"
    by (simp add: isDecDigit_iff)
  have src: "concat (map sourceOf ?ps) = ''Page {page} of {total}, no. {page:03}''"
    by simp
  have three: "toString 3 = ''3''" and ten: "toString 10 = ''10''"
    by (simp_all add: toString.simps digitChar_def)
  have two: "replicate 2 CHR ''0'' = ''00''"
    by (simp add: numeral_2_eq_2)
  have out: "concat (map (spec_expansion (2 + 1) 10) ?ps) = ''Page 3 of 10, no. 003''"
    by (simp add: three ten padStart_def spec_width_def toDouble_def digitsValue_def digitValue_def two)
  have small: "digitsValue 10 ''03'' \<le> 2 ^ 53" and dv: "digitsValue 10 ''03'' = 3"
    by (simp_all add: digitsValue_def digitValue_def)
  note t = placeholders_replaced [of ?ps 2 10 "[]" "''03''"]
  from t wf
  have cur: "currentText (concat (map sourceOf ?ps)) 2 10 = concat (map (spec_expansion (2 + 1) 10) ?ps)"
    by blast
  from t small have "spec_width ''03'' = digitsValue 10 ''03''"
    by blast
  with dv have w: "spec_width ''03'' = 3" by simp
  from cur src out have r: "currentText ''Page {page} of {total}, no. {page:03}'' 2 10 = ''Page 3 of 10, no. 003''"
    by simp
  show ?thesis
    by (intro conjI; (rule wf r small w))
qed

end
